theory Spec2Isabelle
  imports Main "HOL-Library.Sublist"
begin

section \<open>Data model of the scanner (textparser.go)\<close>

text \<open>
  A rune is a Unicode code point (Go's \<open>rune\<close>, an \<open>int32\<close>). The scanner only compares
  runes and hands them to predicates, so they are modelled as integers.
\<close>

type_synonym rune = int

datatype TokenType =
    TokenTypeWhitespace
  | TokenTypeIdent
  | TokenTypeString
  | TokenTypeComment
  | TokenTypeInt
  | TokenTypeFloat
  | TokenTypeSymbol

record Position =
  Filename :: string
  Offset :: nat
  Line :: nat
  Column :: nat

text \<open>
  \<open>Text\<close> is the Go string built by \<open>runes_to_string\<close>: the UTF-8 encoding of a sequence
  of runes. It is kept as that sequence of runes.
\<close>

record Token =
  Text :: "rune list"
  NumBytes :: nat
  NumChars :: nat
  FirstRune :: rune
  Type :: TokenType

datatype error =
    EOF
  | ErrInvalidUnreadRune
  | ErrInvalidUTF8
  | ErrUnterminated Position rune

text \<open>
  The exported, caller-assigned fields of \<open>TokenScanner\<close> (the predicates and the two skip
  flags) together with the end-of-line rune set by \<open>SetEOL\<close>. No scanning function assigns
  them, so they are passed beside the mutable state.
\<close>

record config =
  IsIdentRune :: "rune \<Rightarrow> nat \<Rightarrow> bool"
  IsSpaceRune :: "rune \<Rightarrow> bool"
  IsQuoteRune :: "rune \<Rightarrow> bool \<times> rune"
  IsEscapeRune :: "rune \<Rightarrow> bool"
  IsSymbolRune :: "rune \<Rightarrow> bool"
  IsPunctRune :: "rune \<Rightarrow> bool"
  IsDigitRune :: "rune \<Rightarrow> bool"
  eol :: rune
  SkipWhitespace :: bool
  SkipComments :: bool

text \<open>
  The mutable fields of \<open>TokenScanner\<close>. The \<open>bufio.Reader\<close> is the list of the
  (rune, size) pairs that \<open>ReadRune\<close> still has to deliver, and \<open>last_rune\<close> is the pair
  that \<open>UnreadRune\<close> may put back: it is set by a successful \<open>ReadRune\<close> and cleared by
  \<open>UnreadRune\<close>, by \<open>Peek\<close> and by a failed read.
\<close>

record TokenScanner =
  reader :: "(rune \<times> nat) list"
  last_rune :: "(rune \<times> nat) option"
  pos :: Position
  last_err :: "error option"
  last_byte_len :: nat
  last_line_addition :: nat
  last_col :: nat
  LastToken :: "Token option"

text \<open>What a classifier returns: \<open>(token, nil)\<close>, \<open>(nil, nil)\<close> or \<open>(nil, err)\<close>.\<close>

datatype ret = Tok Token | NoTok | Fail error

section \<open>The rune reader\<close>

definition ReadRune :: "TokenScanner \<Rightarrow> (error + rune \<times> nat) \<times> TokenScanner" where
  "ReadRune ts =
     (case reader ts of
        [] \<Rightarrow> (Inl EOF, ts\<lparr>last_rune := None\<rparr>)
      | u # us \<Rightarrow> (Inr u, ts\<lparr>reader := us, last_rune := Some u\<rparr>))"

definition get_one_rune :: "TokenScanner \<Rightarrow> (error + rune \<times> nat) \<times> TokenScanner" where
  "get_one_rune ts =
     (case ReadRune ts of
        (Inl err, ts1) \<Rightarrow> (Inl err, ts1\<lparr>last_err := Some err\<rparr>)
      | (Inr u, ts1) \<Rightarrow> (Inr u, ts1))"

definition unread_rune :: "TokenScanner \<Rightarrow> error option \<times> TokenScanner" where
  "unread_rune ts =
     (case last_rune ts of
        None \<Rightarrow> (Some ErrInvalidUnreadRune, ts)
      | Some u \<Rightarrow> (None, ts\<lparr>reader := u # reader ts, last_rune := None\<rparr>))"

definition RuneError :: rune where
  "RuneError = 65533"

fun peek_loop :: "nat \<Rightarrow> (rune \<times> nat) list \<Rightarrow> rune list \<Rightarrow> error + rune list" where
  "peek_loop 0 buf runes = Inr runes"
| "peek_loop (Suc n) [] runes = Inl EOF"
| "peek_loop (Suc n) ((ch, sz) # buf) runes =
     (if ch = RuneError then Inl ErrInvalidUTF8 else peek_loop n buf (runes @ [ch]))"

definition peek_multirune :: "nat \<Rightarrow> TokenScanner \<Rightarrow> (error + rune list) \<times> TokenScanner" where
  "peek_multirune num_runes ts =
     (let ts1 = ts\<lparr>last_rune := None\<rparr> in
      if reader ts = [] then (Inl EOF, ts1)
      else (peek_loop num_runes (reader ts) [], ts1))"

definition check_next_rune_char_n :: "rune \<Rightarrow> nat \<Rightarrow> TokenScanner \<Rightarrow> bool \<times> TokenScanner" where
  "check_next_rune_char_n ch n ts =
     (case peek_multirune n ts of
        (Inl err, ts1) \<Rightarrow> (False, ts1)
      | (Inr runes, ts1) \<Rightarrow>
          if length runes < n then (False, ts1)
          else (runes ! (n - 1) = ch, ts1))"

definition check_next_rune_class_n :: "(rune \<Rightarrow> bool) \<Rightarrow> nat \<Rightarrow> TokenScanner \<Rightarrow> bool \<times> TokenScanner" where
  "check_next_rune_class_n check n ts =
     (case peek_multirune n ts of
        (Inl err, ts1) \<Rightarrow> (False, ts1)
      | (Inr runes, ts1) \<Rightarrow>
          if length runes < n then (False, ts1)
          else (check (runes ! (n - 1)), ts1))"

text \<open>
  The column and line bookkeeping that every classifier repeats for an accepted rune.
\<close>

definition count_rune :: "config \<Rightarrow> rune \<Rightarrow> TokenScanner \<Rightarrow> TokenScanner" where
  "count_rune c ch ts =
     (if ch = eol c
      then ts\<lparr>last_line_addition := last_line_addition ts + 1, last_col := 1\<rparr>
      else ts\<lparr>last_col := last_col ts + 1\<rparr>)"

definition update_pos :: "TokenScanner \<Rightarrow> TokenScanner" where
  "update_pos ts =
     ts\<lparr>pos := (pos ts)\<lparr>Offset := Offset (pos ts) + last_byte_len ts,
                        Line := Line (pos ts) + last_line_addition ts,
                        Column := last_col ts\<rparr>,
        last_byte_len := 0,
        last_line_addition := 0\<rparr>"

section \<open>Classifiers\<close>

subsection \<open>get_general: whitespace and symbols\<close>

text \<open>
  The loop of \<open>get_general\<close>. \<open>Inr (runes, total_size)\<close> is a \<open>break\<close>, \<open>Inl err\<close> a
  \<open>return nil, err\<close>.
\<close>

function get_general_loop ::
  "config \<Rightarrow> (rune \<Rightarrow> bool) \<Rightarrow> (rune \<Rightarrow> bool) list \<Rightarrow> rune list \<Rightarrow> nat \<Rightarrow> TokenScanner
     \<Rightarrow> (error + rune list \<times> nat) \<times> TokenScanner" where
  "get_general_loop c rune_check exceptions runes total_size ts =
     (case get_one_rune ts of
        (Inl err, ts1) \<Rightarrow>
          if err = EOF \<and> runes \<noteq> [] then (Inr (runes, total_size), ts1)
          else (Inl err, ts1)
      | (Inr (ch, sz), ts1) \<Rightarrow>
          if \<not> list_ex (\<lambda>e. e ch) exceptions \<and> rune_check ch
          then get_general_loop c rune_check exceptions (runes @ [ch]) (total_size + sz)
                 (count_rune c ch ts1)
          else (case unread_rune ts1 of
                  (Some err, ts2) \<Rightarrow> (Inl err, ts2)
                | (None, ts2) \<Rightarrow> (Inr (runes, total_size), ts2)))"
  by pat_completeness auto
termination
  by (relation "measure (\<lambda>(c, rune_check, exceptions, runes, total_size, ts). length (reader ts))")
     (auto simp: get_one_rune_def ReadRune_def count_rune_def split: list.splits)

declare get_general_loop.simps [simp del]

definition get_general ::
  "config \<Rightarrow> TokenType \<Rightarrow> (rune \<Rightarrow> bool) \<Rightarrow> (rune \<Rightarrow> bool) list \<Rightarrow> TokenScanner
     \<Rightarrow> ret \<times> TokenScanner" where
  "get_general c token_type rune_check exceptions ts =
     (case get_general_loop c rune_check exceptions [] 0 ts of
        (Inl err, ts1) \<Rightarrow> (Fail err, ts1)
      | (Inr (runes, total_size), ts1) \<Rightarrow>
          if runes = [] then (NoTok, ts1)
          else
            (let token = \<lparr>Text = runes, NumBytes = total_size, NumChars = length runes,
                           FirstRune = hd runes, Type = token_type\<rparr>
             in (Tok token, ts1\<lparr>last_byte_len := total_size, LastToken := Some token\<rparr>)))"

definition get_symbol :: "config \<Rightarrow> TokenScanner \<Rightarrow> ret \<times> TokenScanner" where
  "get_symbol c ts =
     get_general c TokenTypeSymbol (IsSymbolRune c) [\<lambda>ch. fst (IsQuoteRune c ch)] ts"

definition get_whitespace :: "config \<Rightarrow> TokenScanner \<Rightarrow> ret \<times> TokenScanner" where
  "get_whitespace c ts = get_general c TokenTypeWhitespace (IsSpaceRune c) [] ts"

subsection \<open>get_ident\<close>

function get_ident_loop ::
  "config \<Rightarrow> nat \<Rightarrow> rune list \<Rightarrow> nat \<Rightarrow> TokenScanner
     \<Rightarrow> (error option + rune list \<times> nat) \<times> TokenScanner" where
  "get_ident_loop c i runes total_size ts =
     (case get_one_rune ts of
        (Inl err, ts1) \<Rightarrow>
          if err = EOF \<and> runes \<noteq> [] then (Inr (runes, total_size), ts1)
          else (Inl (Some err), ts1)
      | (Inr (ch, sz), ts1) \<Rightarrow>
          if IsIdentRune c ch i
          then get_ident_loop c (i + 1) (runes @ [ch]) (total_size + sz) (count_rune c ch ts1)
          else (case unread_rune ts1 of
                  (Some err, ts2) \<Rightarrow> (Inl None, ts2)
                | (None, ts2) \<Rightarrow> (Inr (runes, total_size), ts2)))"
  by pat_completeness auto
termination
  by (relation "measure (\<lambda>(c, i, runes, total_size, ts). length (reader ts))")
     (auto simp: get_one_rune_def ReadRune_def count_rune_def split: list.splits)

declare get_ident_loop.simps [simp del]

text \<open>\<open>Inl None\<close> is the \<open>return nil, nil\<close> taken when the rejected rune cannot be unread.\<close>

definition get_ident :: "config \<Rightarrow> TokenScanner \<Rightarrow> ret \<times> TokenScanner" where
  "get_ident c ts =
     (case get_ident_loop c 0 [] 0 ts of
        (Inl (Some err), ts1) \<Rightarrow> (Fail err, ts1)
      | (Inl None, ts1) \<Rightarrow> (NoTok, ts1)
      | (Inr (runes, total_size), ts1) \<Rightarrow>
          if runes = [] then (NoTok, ts1)
          else
            (let token = \<lparr>Text = runes, NumBytes = total_size, NumChars = length runes,
                           FirstRune = hd runes, Type = TokenTypeIdent\<rparr>
             in (Tok token, ts1\<lparr>last_byte_len := total_size, LastToken := Some token\<rparr>)))"

subsection \<open>read_until and get_n_runes\<close>

function read_until_loop ::
  "config \<Rightarrow> rune \<Rightarrow> rune list \<Rightarrow> TokenScanner \<Rightarrow> (error + rune list) \<times> TokenScanner" where
  "read_until_loop c end_ch runes ts =
     (case get_one_rune ts of
        (Inl err, ts1) \<Rightarrow>
          if err = EOF \<and> end_ch = eol c then (Inr runes, ts1)
          else (Inl err, ts1)
      | (Inr (ch, sz), ts1) \<Rightarrow>
          (let ts2 = count_rune c ch (ts1\<lparr>last_byte_len := last_byte_len ts1 + sz\<rparr>)
           in if ch = end_ch then (Inr (runes @ [ch]), ts2)
              else read_until_loop c end_ch (runes @ [ch]) ts2))"
  by pat_completeness auto
termination
  by (relation "measure (\<lambda>(c, end_ch, runes, ts). length (reader ts))")
     (auto simp: get_one_rune_def ReadRune_def count_rune_def split: list.splits)

declare read_until_loop.simps [simp del]

definition read_until :: "config \<Rightarrow> rune \<Rightarrow> TokenScanner \<Rightarrow> (error + rune list) \<times> TokenScanner" where
  "read_until c end_ch ts = read_until_loop c end_ch [] ts"

text \<open>
  \<open>get_n_runes\<close> has named results \<open>(chars, total_size, err)\<close>; on an error it returns what
  it has read so far together with the error.
\<close>

fun get_n_runes_loop ::
  "config \<Rightarrow> nat \<Rightarrow> rune list \<Rightarrow> nat \<Rightarrow> TokenScanner
     \<Rightarrow> (rune list \<times> nat \<times> error option) \<times> TokenScanner" where
  "get_n_runes_loop c 0 chars total_size ts = ((chars, total_size, None), ts)"
| "get_n_runes_loop c (Suc n) chars total_size ts =
     (case ReadRune ts of
        (Inl err, ts1) \<Rightarrow> ((chars, total_size, Some err), ts1\<lparr>last_err := Some err\<rparr>)
      | (Inr (ch, sz), ts1) \<Rightarrow>
          (let ts2 = ts1\<lparr>last_byte_len := last_byte_len ts1 + sz, last_col := last_col ts1 + 1\<rparr>;
               ts3 = (if ch = eol c
                      then ts2\<lparr>last_line_addition := last_line_addition ts2 + 1, last_col := 1\<rparr>
                      else ts2)
           in get_n_runes_loop c n (chars @ [ch]) (total_size + sz) ts3))"

definition get_n_runes ::
  "config \<Rightarrow> nat \<Rightarrow> TokenScanner \<Rightarrow> (rune list \<times> nat \<times> error option) \<times> TokenScanner" where
  "get_n_runes c n ts = get_n_runes_loop c n [] 0 ts"

lemma read_until_loop_length:
  "read_until_loop c end_ch runes ts = (r, ts') \<Longrightarrow>
     length (reader ts') \<le> length (reader ts) \<and>
     (\<forall>rs. r = Inr rs \<longrightarrow> length rs + length (reader ts') = length runes + length (reader ts))"
proof (induction c end_ch runes ts rule: read_until_loop.induct)
  case (1 c end_ch runes ts)
  show ?case
  proof (cases "reader ts")
    case Nil
    with "1.prems" show ?thesis
      by (auto simp: read_until_loop.simps [of c end_ch runes ts] get_one_rune_def ReadRune_def
               split: if_splits)
  next
    case (Cons u us)
    obtain ch sz where u: "u = (ch, sz)" by (cases u)
    define ts2 where "ts2 = count_rune c ch (ts\<lparr>reader := us, last_rune := Some u,
                              last_byte_len := last_byte_len ts + sz\<rparr>)"
    have g: "get_one_rune ts = (Inr (ch, sz), ts\<lparr>reader := us, last_rune := Some u\<rparr>)"
      using Cons u by (simp add: get_one_rune_def ReadRune_def)
    have r2: "reader ts2 = us"
      by (simp add: ts2_def count_rune_def)
    show ?thesis
    proof (cases "ch = end_ch")
      case True
      with "1.prems" g r2 Cons show ?thesis
        by (auto simp: read_until_loop.simps [of c end_ch runes ts] ts2_def Let_def)
    next
      case False
      with "1.prems" g have rec: "read_until_loop c end_ch (runes @ [ch]) ts2 = (r, ts')"
        by (simp add: read_until_loop.simps [of c end_ch runes ts] ts2_def Let_def)
      from "1.IH" [OF g [symmetric] refl refl _ False rec, unfolded ts2_def [symmetric]]
      show ?thesis using r2 Cons by (auto simp: ts2_def)
    qed
  qed
qed

subsection \<open>get_comment\<close>

text \<open>
  The loop of the block form: read through the next \<open>*\<close>, then one more rune, and stop
  when that rune is \<open>/\<close>. The rune read after the \<open>*\<close> comes from \<open>get_one_rune\<close>, which
  touches none of the pending counters.
\<close>

function block_comment_loop ::
  "config \<Rightarrow> rune list \<Rightarrow> TokenScanner \<Rightarrow> (error + rune list) \<times> TokenScanner" where
  "block_comment_loop c all_runes ts =
     (case read_until c 42 ts of
        (Inl err, ts1) \<Rightarrow> (Inl err, ts1)
      | (Inr runes, ts1) \<Rightarrow>
          (case get_one_rune ts1 of
             (Inl err, ts2) \<Rightarrow> (Inl err, ts2)
           | (Inr (ch, sz), ts2) \<Rightarrow>
               if ch \<noteq> 47 then block_comment_loop c (all_runes @ runes @ [ch]) ts2
               else (Inr (all_runes @ runes @ [ch]), ts2)))"
  by pat_completeness auto
termination
proof (relation "measure (\<lambda>(c, all_runes, ts). length (reader ts))", goal_cases)
  case 1
  show ?case by simp
next
  case (2 c all_runes ts x1 ts1 runes x2 ts2 u ch sz)
  then have "length (reader ts1) \<le> length (reader ts)"
    using read_until_loop_length [of c 42 "[]" ts "Inr runes" ts1]
    by (simp add: read_until_def)
  moreover from 2 have "length (reader ts2) < length (reader ts1)"
    by (auto simp: get_one_rune_def ReadRune_def split: list.splits)
  ultimately show ?case by simp
qed

declare block_comment_loop.simps [simp del]

definition comment_token :: "rune list \<Rightarrow> TokenScanner \<Rightarrow> ret \<times> TokenScanner" where
  "comment_token all_runes ts =
     (if all_runes \<noteq> [] then
        (let token = \<lparr>Text = all_runes, NumBytes = last_byte_len ts,
                       NumChars = length all_runes, FirstRune = 47, Type = TokenTypeComment\<rparr>
         in (Tok token, ts\<lparr>LastToken := Some token\<rparr>))
      else (NoTok, ts))"

definition get_comment :: "config \<Rightarrow> TokenScanner \<Rightarrow> ret \<times> TokenScanner" where
  "get_comment c ts =
     (case get_one_rune ts of
        (Inl err, ts1) \<Rightarrow> (Fail err, ts1)
      | (Inr (ch, sz), ts1) \<Rightarrow>
          if ch = 47 then
            (case unread_rune ts1 of
               (Some err, ts2) \<Rightarrow> (Fail err, ts2)
             | (None, ts2) \<Rightarrow>
                 (case check_next_rune_char_n 47 2 ts2 of
                    (True, ts3) \<Rightarrow>
                      (case get_n_runes c 2 ts3 of
                         ((chars, n, Some err), ts4) \<Rightarrow> (Fail err, ts4)
                       | ((chars, n, None), ts4) \<Rightarrow>
                           (case read_until c (eol c) ts4 of
                              (Inl err, ts5) \<Rightarrow>
                                if err \<noteq> EOF then (Fail err, ts5)
                                else comment_token chars ts5
                            | (Inr chars2, ts5) \<Rightarrow> comment_token (chars @ chars2) ts5))
                  | (False, ts3) \<Rightarrow>
                      (case check_next_rune_char_n 42 2 ts3 of
                         (True, ts4) \<Rightarrow>
                           (case get_n_runes c 2 ts4 of
                              ((chars, n, Some err), ts5) \<Rightarrow> (Fail err, ts5)
                            | ((chars, n, None), ts5) \<Rightarrow>
                                (case block_comment_loop c chars ts5 of
                                   (Inl err, ts6) \<Rightarrow> (Fail err, ts6)
                                 | (Inr all_runes, ts6) \<Rightarrow> comment_token all_runes ts6))
                       | (False, ts4) \<Rightarrow> comment_token [] ts4)))
          else
            (case unread_rune ts1 of
               (Some err, ts2) \<Rightarrow> (Fail err, ts2)
             | (None, ts2) \<Rightarrow> (NoTok, ts2)))"

subsection \<open>get_quoted\<close>

function get_quoted_loop ::
  "config \<Rightarrow> rune \<Rightarrow> rune list \<Rightarrow> TokenScanner \<Rightarrow> (error + rune list) \<times> TokenScanner" where
  "get_quoted_loop c closing_char all_runes ts =
     (case read_until c closing_char ts of
        (Inl err, ts1) \<Rightarrow> (Inl (ErrUnterminated (pos ts1) closing_char), ts1)
      | (Inr runes, ts1) \<Rightarrow>
          if 1 < length runes \<and> IsEscapeRune c (runes ! (length runes - 1 - 1))
          then get_quoted_loop c closing_char
                 (all_runes @ take (length runes - 1 - 1) runes @ [runes ! (length runes - 1)]) ts1
          else (Inr (all_runes @ runes), ts1))"
  by pat_completeness auto
termination
proof (relation "measure (\<lambda>(c, closing_char, all_runes, ts). length (reader ts))", goal_cases)
  case 1
  show ?case by simp
next
  case (2 c closing_char all_runes ts x1 ts1 runes)
  then show ?case
    using read_until_loop_length [of c closing_char "[]" ts "Inr runes" ts1]
    by (auto simp: read_until_def)
qed

declare get_quoted_loop.simps [simp del]

definition get_quoted :: "config \<Rightarrow> TokenScanner \<Rightarrow> ret \<times> TokenScanner" where
  "get_quoted c ts =
     (case get_one_rune ts of
        (Inl err, ts1) \<Rightarrow> (Fail err, ts1)
      | (Inr (ch, sz), ts1) \<Rightarrow>
          (case IsQuoteRune c ch of
             (False, closing_char) \<Rightarrow>
               (case unread_rune ts1 of
                  (Some err, ts2) \<Rightarrow> (Fail err, ts2)
                | (None, ts2) \<Rightarrow> (NoTok, ts2))
           | (True, closing_char) \<Rightarrow>
               (case get_quoted_loop c closing_char []
                       (ts1\<lparr>last_byte_len := last_byte_len ts1 + sz\<rparr>) of
                  (Inl err, ts3) \<Rightarrow> (Fail err, ts3)
                | (Inr all_runes, ts3) \<Rightarrow>
                    (let token = \<lparr>Text = ch # all_runes, NumBytes = last_byte_len ts3,
                                   NumChars = length all_runes + 1, FirstRune = ch,
                                   Type = TokenTypeString\<rparr>
                     in (Tok token, ts3\<lparr>LastToken := Some token\<rparr>)))))"

subsection \<open>get_number\<close>

text \<open>
  The loop of \<open>get_number\<close> with its five local variables. A \<open>.\<close> (46) or a \<open>-\<close> (45)
  is unread, the rune after it is peeked, and it is read back in when that rune is a digit.
\<close>

function get_number_loop ::
  "config \<Rightarrow> rune list \<Rightarrow> nat \<Rightarrow> bool \<Rightarrow> bool \<Rightarrow> bool \<Rightarrow> TokenScanner
     \<Rightarrow> (error + rune list \<times> nat \<times> bool) \<times> TokenScanner" where
  "get_number_loop c runes total_size found_digits found_decimal is_float ts =
     (case get_one_rune ts of
        (Inl err, ts1) \<Rightarrow>
          if err = EOF \<and> runes \<noteq> [] then (Inr (runes, total_size, is_float), ts1)
          else (Inl err, ts1)
      | (Inr (ch, sz), ts1) \<Rightarrow>
          if ch = 46 \<and> found_digits \<and> \<not> found_decimal then
            (case unread_rune ts1 of
               (Some err, ts2) \<Rightarrow> (Inl err, ts2)
             | (None, ts2) \<Rightarrow>
                 (case check_next_rune_class_n (IsDigitRune c) 2 ts2 of
                    (True, ts3) \<Rightarrow>
                      (case get_one_rune (ts3\<lparr>last_col := last_col ts3 + 1\<rparr>) of
                         (Inl err, ts4) \<Rightarrow>
                           if err = EOF \<and> runes @ [ch] \<noteq> []
                           then (Inr (runes @ [ch], total_size + sz, True), ts4)
                           else (Inl err, ts4)
                       | (Inr u, ts4) \<Rightarrow>
                           get_number_loop c (runes @ [ch]) (total_size + sz) found_digits True True ts4)
                  | (False, ts3) \<Rightarrow> (Inr (runes, total_size, is_float), ts3)))
          else if ch = 45 \<and> \<not> found_digits then
            (case unread_rune ts1 of
               (Some err, ts2) \<Rightarrow> (Inl err, ts2)
             | (None, ts2) \<Rightarrow>
                 (case check_next_rune_class_n (IsDigitRune c) 2 ts2 of
                    (True, ts3) \<Rightarrow>
                      (case get_one_rune (ts3\<lparr>last_col := last_col ts3 + 1\<rparr>) of
                         (Inl err, ts4) \<Rightarrow>
                           if err = EOF \<and> runes @ [ch] \<noteq> []
                           then (Inr (runes @ [ch], total_size + sz, is_float), ts4)
                           else (Inl err, ts4)
                       | (Inr u, ts4) \<Rightarrow>
                           get_number_loop c (runes @ [ch]) (total_size + sz) found_digits
                             found_decimal is_float ts4)
                  | (False, ts3) \<Rightarrow> (Inr (runes, total_size, is_float), ts3)))
          else if IsDigitRune c ch then
            get_number_loop c (runes @ [ch]) (total_size + sz) True found_decimal is_float
              (count_rune c ch ts1)
          else
            (case unread_rune ts1 of
               (Some err, ts2) \<Rightarrow> (Inl err, ts2)
             | (None, ts2) \<Rightarrow> (Inr (runes, total_size, is_float), ts2)))"
  by pat_completeness auto
termination
  by (relation "measure (\<lambda>(c, runes, total_size, found_digits, found_decimal, is_float, ts).
                          length (reader ts))")
     (auto simp: get_one_rune_def ReadRune_def unread_rune_def check_next_rune_class_n_def
                 peek_multirune_def count_rune_def Let_def
           split: list.splits if_splits sum.splits prod.splits)

declare get_number_loop.simps [simp del]

definition get_number :: "config \<Rightarrow> TokenScanner \<Rightarrow> ret \<times> TokenScanner" where
  "get_number c ts =
     (case get_number_loop c [] 0 False False False ts of
        (Inl err, ts1) \<Rightarrow> (Fail err, ts1)
      | (Inr (runes, total_size, is_float), ts1) \<Rightarrow>
          if runes = [] then (NoTok, ts1)
          else
            (let token = \<lparr>Text = runes, NumBytes = total_size, NumChars = length runes,
                           FirstRune = hd runes,
                           Type = (if is_float then TokenTypeFloat else TokenTypeInt)\<rparr>
             in (Tok token, ts1\<lparr>last_byte_len := total_size, LastToken := Some token\<rparr>)))"

section \<open>What a classifier consumes\<close>

definition bytes :: "(rune \<times> nat) list \<Rightarrow> nat" where
  "bytes us = sum_list (map snd us)"

definition eols :: "config \<Rightarrow> (rune \<times> nat) list \<Rightarrow> nat" where
  "eols c us = length (filter (\<lambda>u. fst u = eol c) us)"

lemma bytes_simps [simp]:
  "bytes [] = 0" "bytes (u # us) = snd u + bytes us" "bytes (us @ vs) = bytes us + bytes vs"
  by (simp_all add: bytes_def)

lemma eols_simps [simp]:
  "eols c [] = 0" "eols c (u # us) = (if fst u = eol c then 1 else 0) + eols c us"
  "eols c (us @ vs) = eols c us + eols c vs"
  by (simp_all add: eols_def)

lemma get_one_rune_Cons:
  "reader ts = (ch, sz) # us \<Longrightarrow>
     get_one_rune ts = (Inr (ch, sz), ts\<lparr>reader := us, last_rune := Some (ch, sz)\<rparr>)"
  by (simp add: get_one_rune_def ReadRune_def)

lemma get_one_rune_Nil:
  "reader ts = [] \<Longrightarrow>
     get_one_rune ts = (Inl EOF, ts\<lparr>last_rune := None, last_err := Some EOF\<rparr>)"
  by (simp add: get_one_rune_def ReadRune_def)

lemma get_general_loop_consumes:
  "get_general_loop c rune_check exceptions runes total_size ts = (r, ts') \<Longrightarrow>
     pos ts' = pos ts \<and> LastToken ts' = LastToken ts \<and> last_byte_len ts' = last_byte_len ts \<and>
     (case r of
        Inl err \<Rightarrow> err = EOF \<and> runes = [] \<and> reader ts = [] \<and> reader ts' = [] \<and>
                   last_line_addition ts' = last_line_addition ts \<and> last_col ts' = last_col ts
      | Inr (rs, n) \<Rightarrow>
          (\<exists>pre. reader ts = pre @ reader ts' \<and> rs = runes @ map fst pre \<and>
                 n = total_size + bytes pre \<and>
                 last_line_addition ts' = last_line_addition ts + eols c pre \<and>
                 (pre = [] \<longrightarrow> last_col ts' = last_col ts)))"
proof (induction c rune_check exceptions runes total_size ts rule: get_general_loop.induct)
  case (1 c rune_check exceptions runes total_size ts)
  show ?case
  proof (cases "reader ts")
    case Nil
    with "1.prems" show ?thesis
      by (auto simp: get_general_loop.simps [of c rune_check exceptions runes total_size ts]
                     get_one_rune_Nil split: if_splits)
  next
    case (Cons u us)
    obtain ch sz where u: "u = (ch, sz)" by (cases u)
    let ?ts1 = "ts\<lparr>reader := us, last_rune := Some (ch, sz)\<rparr>"
    have g: "get_one_rune ts = (Inr (ch, sz), ?ts1)"
      using Cons u by (simp add: get_one_rune_Cons)
    show ?thesis
    proof (cases "\<not> list_ex (\<lambda>e. e ch) exceptions \<and> rune_check ch")
      case True
      with "1.prems" g
      have rec: "get_general_loop c rune_check exceptions (runes @ [ch]) (total_size + sz)
                   (count_rune c ch ?ts1) = (r, ts')"
        by (simp add: get_general_loop.simps [of c rune_check exceptions runes total_size ts])
      note IH = "1.IH" [OF g [symmetric] refl refl True rec]
      show ?thesis
      proof (cases r)
        case (Inl err)
        with IH show ?thesis by simp
      next
        case (Inr p)
        obtain rs n where p: "p = (rs, n)" by (cases p)
        from IH Inr p obtain pre where
          pre: "reader (count_rune c ch ?ts1) = pre @ reader ts'" "rs = (runes @ [ch]) @ map fst pre"
               "n = total_size + sz + bytes pre"
               "last_line_addition ts' = last_line_addition (count_rune c ch ?ts1) + eols c pre"
          by auto
        have "reader ts = ((ch, sz) # pre) @ reader ts'"
          using pre(1) Cons u by (simp add: count_rune_def split: if_splits)
        moreover have "rs = runes @ map fst ((ch, sz) # pre)"
          using pre(2) by simp
        moreover have "n = total_size + bytes ((ch, sz) # pre)"
          using pre(3) by simp
        moreover have "last_line_addition ts' = last_line_addition ts + eols c ((ch, sz) # pre)"
          using pre(4) by (simp add: count_rune_def)
        ultimately show ?thesis
          using IH Inr p by (simp add: count_rune_def split: if_splits)
      qed
    next
      case False
      with "1.prems" g have "r = Inr (runes, total_size)" "ts' = ts\<lparr>reader := (ch, sz) # us, last_rune := None\<rparr>"
        by (auto simp: get_general_loop.simps [of c rune_check exceptions runes total_size ts]
                       unread_rune_def)
      then show ?thesis using Cons u by simp
    qed
  qed
qed

lemma read_until_loop_consumes:
  "read_until_loop c end_ch runes ts = (r, ts') \<Longrightarrow>
     pos ts' = pos ts \<and> LastToken ts' = LastToken ts \<and>
     (\<exists>pre. reader ts = pre @ reader ts' \<and>
            last_byte_len ts' = last_byte_len ts + bytes pre \<and>
            last_line_addition ts' = last_line_addition ts + eols c pre \<and>
            end_ch \<notin> set (butlast (map fst pre)) \<and>
            (case r of
               Inl err \<Rightarrow> err = EOF \<and> reader ts' = [] \<and> end_ch \<noteq> eol c \<and>
                          end_ch \<notin> set (map fst pre)
             | Inr rs \<Rightarrow> rs = runes @ map fst pre \<and>
                         ((pre \<noteq> [] \<and> fst (last pre) = end_ch) \<or>
                          (reader ts' = [] \<and> end_ch = eol c \<and> end_ch \<notin> set (map fst pre)))))"
proof (induction c end_ch runes ts rule: read_until_loop.induct)
  case (1 c end_ch runes ts)
  show ?case
  proof (cases "reader ts")
    case Nil
    with "1.prems" show ?thesis
      by (auto simp: read_until_loop.simps [of c end_ch runes ts] get_one_rune_Nil
               split: if_splits)
  next
    case (Cons u us)
    obtain ch sz where u: "u = (ch, sz)" by (cases u)
    let ?ts1 = "ts\<lparr>reader := us, last_rune := Some (ch, sz)\<rparr>"
    define ts2 where "ts2 = count_rune c ch (?ts1\<lparr>last_byte_len := last_byte_len ?ts1 + sz\<rparr>)"
    have g: "get_one_rune ts = (Inr (ch, sz), ?ts1)"
      using Cons u by (simp add: get_one_rune_Cons)
    have f2: "reader ts2 = us" "pos ts2 = pos ts" "LastToken ts2 = LastToken ts"
      "last_byte_len ts2 = last_byte_len ts + sz"
      "last_line_addition ts2 = last_line_addition ts + eols c [(ch, sz)]"
      by (simp_all add: ts2_def count_rune_def)
    show ?thesis
    proof (cases "ch = end_ch")
      case True
      with "1.prems" g have "r = Inr (runes @ [ch])" "ts' = ts2"
        by (simp_all add: read_until_loop.simps [of c end_ch runes ts] ts2_def Let_def)
      have "\<exists>pre. reader ts = pre @ reader ts2 \<and>
            last_byte_len ts2 = last_byte_len ts + bytes pre \<and>
            last_line_addition ts2 = last_line_addition ts + eols c pre \<and>
            end_ch \<notin> set (butlast (map fst pre)) \<and>
            runes @ [ch] = runes @ map fst pre \<and> pre \<noteq> [] \<and> fst (last pre) = end_ch"
        using f2 Cons u True by (intro exI [of _ "[(ch, sz)]"]) simp
      with f2 \<open>r = Inr (runes @ [ch])\<close> \<open>ts' = ts2\<close> show ?thesis
        by auto
    next
      case False
      with "1.prems" g have rec: "read_until_loop c end_ch (runes @ [ch]) ts2 = (r, ts')"
        by (simp add: read_until_loop.simps [of c end_ch runes ts] ts2_def Let_def)
      note IH = "1.IH" [OF g [symmetric] refl refl _ False rec, unfolded ts2_def [symmetric]]
      from IH obtain pre where
        pre: "reader ts2 = pre @ reader ts'"
             "last_byte_len ts' = last_byte_len ts2 + bytes pre"
             "last_line_addition ts' = last_line_addition ts2 + eols c pre"
             "end_ch \<notin> set (butlast (map fst pre))"
             "(case r of
                 Inl err \<Rightarrow> err = EOF \<and> reader ts' = [] \<and> end_ch \<noteq> eol c \<and>
                            end_ch \<notin> set (map fst pre)
               | Inr rs \<Rightarrow> rs = (runes @ [ch]) @ map fst pre \<and>
                           ((pre \<noteq> [] \<and> fst (last pre) = end_ch) \<or>
                            (reader ts' = [] \<and> end_ch = eol c \<and> end_ch \<notin> set (map fst pre))))"
        by (auto simp: ts2_def)
      have "reader ts = ((ch, sz) # pre) @ reader ts'"
        using pre(1) f2 Cons u by simp
      moreover have "last_byte_len ts' = last_byte_len ts + bytes ((ch, sz) # pre)"
        using pre(2) f2 by simp
      moreover have "last_line_addition ts' = last_line_addition ts + eols c ((ch, sz) # pre)"
        using pre(3) f2 by simp
      moreover have "end_ch \<notin> set (butlast (map fst ((ch, sz) # pre)))"
        using pre(4) False by auto
      moreover have "(case r of
                 Inl err \<Rightarrow> err = EOF \<and> reader ts' = [] \<and> end_ch \<noteq> eol c \<and>
                            end_ch \<notin> set (map fst ((ch, sz) # pre))
               | Inr rs \<Rightarrow> rs = runes @ map fst ((ch, sz) # pre) \<and>
                           ((((ch, sz) # pre) \<noteq> [] \<and> fst (last ((ch, sz) # pre)) = end_ch) \<or>
                            (reader ts' = [] \<and> end_ch = eol c \<and>
                             end_ch \<notin> set (map fst ((ch, sz) # pre)))))"
        using pre(5) False by (auto split: sum.splits)
      ultimately have "\<exists>pre. reader ts = pre @ reader ts' \<and>
            last_byte_len ts' = last_byte_len ts + bytes pre \<and>
            last_line_addition ts' = last_line_addition ts + eols c pre \<and>
            end_ch \<notin> set (butlast (map fst pre)) \<and>
            (case r of
               Inl err \<Rightarrow> err = EOF \<and> reader ts' = [] \<and> end_ch \<noteq> eol c \<and>
                          end_ch \<notin> set (map fst pre)
             | Inr rs \<Rightarrow> rs = runes @ map fst pre \<and>
                         ((pre \<noteq> [] \<and> fst (last pre) = end_ch) \<or>
                          (reader ts' = [] \<and> end_ch = eol c \<and> end_ch \<notin> set (map fst pre))))"
        by (intro exI [of _ "(ch, sz) # pre"] conjI)
      moreover have "pos ts' = pos ts" "LastToken ts' = LastToken ts"
        using IH f2 by simp_all
      ultimately show ?thesis by blast
    qed
  qed
qed

lemma get_n_runes_loop_consumes:
  "get_n_runes_loop c n chars total_size ts = ((rs, m, e), ts') \<Longrightarrow>
     pos ts' = pos ts \<and> LastToken ts' = LastToken ts \<and>
     (\<exists>pre. reader ts = pre @ reader ts' \<and> rs = chars @ map fst pre \<and>
            m = total_size + bytes pre \<and>
            last_byte_len ts' = last_byte_len ts + bytes pre \<and>
            last_line_addition ts' = last_line_addition ts + eols c pre \<and>
            (case e of None \<Rightarrow> length pre = n | Some err \<Rightarrow> err = EOF \<and> reader ts' = []))"
proof (induction n arbitrary: chars total_size ts)
  case 0
  then show ?case by simp
next
  case (Suc n)
  show ?case
  proof (cases "reader ts")
    case Nil
    with Suc.prems show ?thesis
      by (auto simp: ReadRune_def)
  next
    case (Cons u us)
    obtain ch sz where u: "u = (ch, sz)" by (cases u)
    define ts3 where "ts3 =
      (if ch = eol c
       then ts\<lparr>reader := us, last_rune := Some (ch, sz), last_byte_len := last_byte_len ts + sz,
               last_col := last_col ts + 1,
               last_line_addition := last_line_addition ts + 1, last_col := 1\<rparr>
       else ts\<lparr>reader := us, last_rune := Some (ch, sz), last_byte_len := last_byte_len ts + sz,
               last_col := last_col ts + 1\<rparr>)"
    have f3: "reader ts3 = us" "pos ts3 = pos ts" "LastToken ts3 = LastToken ts"
      "last_byte_len ts3 = last_byte_len ts + sz"
      "last_line_addition ts3 = last_line_addition ts + eols c [(ch, sz)]"
      by (simp_all add: ts3_def)
    from Suc.prems Cons u
    have rec: "get_n_runes_loop c n (chars @ [ch]) (total_size + sz) ts3 = ((rs, m, e), ts')"
      by (simp add: ReadRune_def ts3_def Let_def split: if_splits)
    from Suc.IH [OF rec] obtain pre where
      pre: "reader ts3 = pre @ reader ts'" "rs = (chars @ [ch]) @ map fst pre"
           "m = total_size + sz + bytes pre"
           "last_byte_len ts' = last_byte_len ts3 + bytes pre"
           "last_line_addition ts' = last_line_addition ts3 + eols c pre"
           "(case e of None \<Rightarrow> length pre = n | Some err \<Rightarrow> err = EOF \<and> reader ts' = [])"
      and same: "pos ts' = pos ts3" "LastToken ts' = LastToken ts3"
      by auto
    have "reader ts = ((ch, sz) # pre) @ reader ts'"
      using pre(1) f3 Cons u by simp
    moreover have "rs = chars @ map fst ((ch, sz) # pre)"
      using pre(2) by simp
    moreover have "m = total_size + bytes ((ch, sz) # pre)"
      using pre(3) by simp
    moreover have "last_byte_len ts' = last_byte_len ts + bytes ((ch, sz) # pre)"
      using pre(4) f3 by simp
    moreover have "last_line_addition ts' = last_line_addition ts + eols c ((ch, sz) # pre)"
      using pre(5) f3 by simp
    moreover have "(case e of None \<Rightarrow> length ((ch, sz) # pre) = Suc n
                    | Some err \<Rightarrow> err = EOF \<and> reader ts' = [])"
      using pre(6) by (auto split: option.splits)
    ultimately have "\<exists>pre. reader ts = pre @ reader ts' \<and> rs = chars @ map fst pre \<and>
            m = total_size + bytes pre \<and>
            last_byte_len ts' = last_byte_len ts + bytes pre \<and>
            last_line_addition ts' = last_line_addition ts + eols c pre \<and>
            (case e of None \<Rightarrow> length pre = Suc n | Some err \<Rightarrow> err = EOF \<and> reader ts' = [])"
      by (intro exI [of _ "(ch, sz) # pre"] conjI)
    then show ?thesis
      using same f3 by simp
  qed
qed

lemma read_until_cases:
  assumes "read_until c end_ch ts = (r, ts')"
  obtains pre where
    "reader ts = pre @ reader ts'" "pos ts' = pos ts" "LastToken ts' = LastToken ts"
    "last_byte_len ts' = last_byte_len ts + bytes pre"
    "last_line_addition ts' = last_line_addition ts + eols c pre"
    "end_ch \<notin> set (butlast (map fst pre))"
    "\<And>err. r = Inl err \<Longrightarrow>
       err = EOF \<and> reader ts' = [] \<and> end_ch \<noteq> eol c \<and> end_ch \<notin> set (map fst pre)"
    "\<And>rs. r = Inr rs \<Longrightarrow>
       rs = map fst pre \<and>
       ((pre \<noteq> [] \<and> fst (last pre) = end_ch) \<or>
        (reader ts' = [] \<and> end_ch = eol c \<and> end_ch \<notin> set (map fst pre)))"
proof -
  from read_until_loop_consumes [OF assms [unfolded read_until_def]] obtain pre where
    a: "reader ts = pre @ reader ts'" "pos ts' = pos ts" "LastToken ts' = LastToken ts"
       "last_byte_len ts' = last_byte_len ts + bytes pre"
       "last_line_addition ts' = last_line_addition ts + eols c pre"
       "end_ch \<notin> set (butlast (map fst pre))"
    and b: "(case r of
               Inl err \<Rightarrow> err = EOF \<and> reader ts' = [] \<and> end_ch \<noteq> eol c \<and>
                          end_ch \<notin> set (map fst pre)
             | Inr rs \<Rightarrow> rs = [] @ map fst pre \<and>
                         ((pre \<noteq> [] \<and> fst (last pre) = end_ch) \<or>
                          (reader ts' = [] \<and> end_ch = eol c \<and> end_ch \<notin> set (map fst pre))))"
    by blast
  show thesis
  proof (rule that [of pre])
    fix err assume "r = Inl err"
    with b show "err = EOF \<and> reader ts' = [] \<and> end_ch \<noteq> eol c \<and> end_ch \<notin> set (map fst pre)"
      by simp
  next
    fix rs assume "r = Inr rs"
    with b show "rs = map fst pre \<and>
       ((pre \<noteq> [] \<and> fst (last pre) = end_ch) \<or>
        (reader ts' = [] \<and> end_ch = eol c \<and> end_ch \<notin> set (map fst pre)))"
      by simp
  qed (use a in simp_all)
qed

lemma get_n_runes_cases:
  assumes "get_n_runes c n ts = ((rs, m, e), ts')"
  obtains pre where
    "reader ts = pre @ reader ts'" "pos ts' = pos ts" "LastToken ts' = LastToken ts"
    "rs = map fst pre" "m = bytes pre"
    "last_byte_len ts' = last_byte_len ts + bytes pre"
    "last_line_addition ts' = last_line_addition ts + eols c pre"
    "e = None \<Longrightarrow> length pre = n"
    "\<And>err. e = Some err \<Longrightarrow> err = EOF \<and> reader ts' = []"
proof -
  from get_n_runes_loop_consumes [OF assms [unfolded get_n_runes_def]] obtain pre where
    a: "reader ts = pre @ reader ts'" "pos ts' = pos ts" "LastToken ts' = LastToken ts"
       "rs = [] @ map fst pre" "m = 0 + bytes pre"
       "last_byte_len ts' = last_byte_len ts + bytes pre"
       "last_line_addition ts' = last_line_addition ts + eols c pre"
    and b: "(case e of None \<Rightarrow> length pre = n | Some err \<Rightarrow> err = EOF \<and> reader ts' = [])"
    by blast
  show thesis
  proof (rule that [of pre])
    assume "e = None"
    with b show "length pre = n" by simp
  next
    fix err assume "e = Some err"
    with b show "err = EOF \<and> reader ts' = []" by simp
  qed (use a in simp_all)
qed

lemma block_comment_loop_consumes:
  "block_comment_loop c all_runes ts = (r, ts') \<Longrightarrow>
     pos ts' = pos ts \<and> LastToken ts' = LastToken ts \<and>
     (\<exists>pre. reader ts = pre @ reader ts' \<and>
            (case r of
               Inl err \<Rightarrow> err = EOF \<and> reader ts' = []
             | Inr rs \<Rightarrow> rs = all_runes @ map fst pre \<and> pre \<noteq> []))"
proof (induction c all_runes ts rule: block_comment_loop.induct)
  case (1 c all_runes ts)
  obtain r1 ts1 where ru: "read_until c 42 ts = (r1, ts1)"
    by (cases "read_until c 42 ts")
  from ru obtain pre1 where
    pre1: "reader ts = pre1 @ reader ts1"
          "\<And>err. r1 = Inl err \<Longrightarrow> err = EOF \<and> reader ts1 = []"
          "\<And>rs. r1 = Inr rs \<Longrightarrow> rs = map fst pre1"
    and same1: "pos ts1 = pos ts" "LastToken ts1 = LastToken ts"
    by (rule read_until_cases) blast
  show ?case
  proof (cases r1)
    case (Inl err)
    with "1.prems" ru pre1 same1 show ?thesis
      by (auto simp: block_comment_loop.simps [of c all_runes ts])
  next
    case (Inr runes)
    show ?thesis
    proof (cases "reader ts1")
      case Nil
      with "1.prems" ru Inr pre1 same1 show ?thesis
        by (auto simp: block_comment_loop.simps [of c all_runes ts] get_one_rune_Nil)
    next
      case (Cons u us)
      obtain ch sz where u: "u = (ch, sz)" by (cases u)
      let ?ts2 = "ts1\<lparr>reader := us, last_rune := Some (ch, sz)\<rparr>"
      have g: "get_one_rune ts1 = (Inr (ch, sz), ?ts2)"
        using Cons u by (simp add: get_one_rune_Cons)
      have rd: "reader ts = (pre1 @ [(ch, sz)]) @ us"
        using pre1(1) Cons u by simp
      have runes: "runes = map fst pre1"
        using pre1(3) Inr by simp
      show ?thesis
      proof (cases "ch = 47")
        case True
        with "1.prems" ru Inr g have "r = Inr (all_runes @ runes @ [ch])" "ts' = ?ts2"
          by (simp_all add: block_comment_loop.simps [of c all_runes ts])
        with rd runes same1 show ?thesis
          by (auto intro!: exI [of _ "pre1 @ [(ch, sz)]"])
      next
        case False
        with "1.prems" ru Inr g
        have rec: "block_comment_loop c (all_runes @ runes @ [ch]) ?ts2 = (r, ts')"
          by (simp add: block_comment_loop.simps [of c all_runes ts])
        from "1.IH" [OF ru [symmetric] Inr g [symmetric] refl refl False rec]
        obtain pre where
          pre: "us = pre @ reader ts'"
               "(case r of Inl err \<Rightarrow> err = EOF \<and> reader ts' = []
                 | Inr rs \<Rightarrow> rs = (all_runes @ runes @ [ch]) @ map fst pre \<and> pre \<noteq> [])"
          and same: "pos ts' = pos ts1" "LastToken ts' = LastToken ts1"
          by auto
        have "reader ts = (pre1 @ (ch, sz) # pre) @ reader ts'"
          using rd pre(1) by simp
        moreover have "(case r of Inl err \<Rightarrow> err = EOF \<and> reader ts' = []
                 | Inr rs \<Rightarrow> rs = all_runes @ map fst (pre1 @ (ch, sz) # pre) \<and>
                             pre1 @ (ch, sz) # pre \<noteq> [])"
          using pre(2) runes by (auto split: sum.splits)
        ultimately have "\<exists>pre. reader ts = pre @ reader ts' \<and>
            (case r of
               Inl err \<Rightarrow> err = EOF \<and> reader ts' = []
             | Inr rs \<Rightarrow> rs = all_runes @ map fst pre \<and> pre \<noteq> [])"
          by (intro exI [of _ "pre1 @ (ch, sz) # pre"] conjI)
        with same same1 show ?thesis by simp
      qed
    qed
  qed
qed

lemma block_comment_loop_cases:
  assumes "block_comment_loop c all_runes ts = (r, ts')"
  obtains pre where
    "reader ts = pre @ reader ts'" "pos ts' = pos ts" "LastToken ts' = LastToken ts"
    "\<And>err. r = Inl err \<Longrightarrow> err = EOF \<and> reader ts' = []"
    "\<And>rs. r = Inr rs \<Longrightarrow> rs = all_runes @ map fst pre \<and> pre \<noteq> []"
proof -
  from block_comment_loop_consumes [OF assms] obtain pre where
    a: "reader ts = pre @ reader ts'" "pos ts' = pos ts" "LastToken ts' = LastToken ts"
    and b: "(case r of
               Inl err \<Rightarrow> err = EOF \<and> reader ts' = []
             | Inr rs \<Rightarrow> rs = all_runes @ map fst pre \<and> pre \<noteq> [])"
    by blast
  show thesis
  proof (rule that [of pre])
    fix err assume "r = Inl err"
    with b show "err = EOF \<and> reader ts' = []" by simp
  next
    fix rs assume "r = Inr rs"
    with b show "rs = all_runes @ map fst pre \<and> pre \<noteq> []" by simp
  qed (use a in simp_all)
qed

text \<open>
  What one call of a classifier does to the scanner: \<open>pre\<close> is the input it consumed. A
  classifier that declines or fails leaves the pending counters as they were; one that
  returns a token has consumed at least one rune.
\<close>

lemma get_general_cases:
  assumes "get_general c token_type rune_check exceptions ts = (r, ts')"
  obtains pre where
    "reader ts = pre @ reader ts'" "pos ts' = pos ts"
    "last_line_addition ts' = last_line_addition ts + eols c pre"
    "r = NoTok \<Longrightarrow> pre = [] \<and> LastToken ts' = LastToken ts \<and>
        last_byte_len ts' = last_byte_len ts \<and> last_col ts' = last_col ts"
    "\<And>e. r = Fail e \<Longrightarrow> e = EOF \<and> pre = [] \<and> reader ts' = [] \<and>
        LastToken ts' = LastToken ts \<and> last_byte_len ts' = last_byte_len ts \<and>
        last_col ts' = last_col ts"
    "\<And>t. r = Tok t \<Longrightarrow> pre \<noteq> [] \<and> LastToken ts' = Some t \<and> last_byte_len ts' = bytes pre \<and>
        t = \<lparr>Text = map fst pre, NumBytes = bytes pre, NumChars = length pre,
             FirstRune = fst (hd pre), Type = token_type\<rparr>"
proof -
  obtain r1 ts1 where l: "get_general_loop c rune_check exceptions [] 0 ts = (r1, ts1)"
    by (cases "get_general_loop c rune_check exceptions [] 0 ts")
  note L = get_general_loop_consumes [OF l]
  show thesis
  proof (cases r1)
    case (Inl err)
    with L l assms have "r = Fail err" "ts' = ts1" "err = EOF" "reader ts = []" "reader ts1 = []"
      "last_line_addition ts1 = last_line_addition ts" "last_col ts1 = last_col ts"
      by (simp_all add: get_general_def)
    with L show thesis
      by (intro that [of "[]"]) simp_all
  next
    case (Inr p)
    obtain rs n where p: "p = (rs, n)" by (cases p)
    from L Inr p obtain pre where
      pre: "reader ts = pre @ reader ts1" "rs = map fst pre" "n = bytes pre"
           "last_line_addition ts1 = last_line_addition ts + eols c pre"
           "pre = [] \<longrightarrow> last_col ts1 = last_col ts"
      by auto
    show thesis
    proof (cases "rs = []")
      case True
      with l Inr p assms have "r = NoTok" "ts' = ts1"
        by (simp_all add: get_general_def)
      with L pre True show thesis
        by (intro that [of pre]) simp_all
    next
      case False
      define t where "t = \<lparr>Text = rs, NumBytes = n, NumChars = length rs,
                           FirstRune = hd rs, Type = token_type\<rparr>"
      from False l Inr p assms
      have "r = Tok t" "ts' = ts1\<lparr>last_byte_len := n, LastToken := Some t\<rparr>"
        by (simp_all add: get_general_def Let_def t_def)
      with L pre False show thesis
        by (intro that [of pre]) (auto simp: t_def hd_map)
    qed
  qed
qed

text \<open>The input opens a block comment: a \<open>/\<close> immediately followed by a \<open>*\<close>.\<close>

definition block_open :: "(rune \<times> nat) list \<Rightarrow> bool" where
  "block_open us = (case us of (a, sa) # (b, sb) # vs \<Rightarrow> a = 47 \<and> b = 42 | _ \<Rightarrow> False)"

lemma check_next_rune_char_n_2:
  assumes "check_next_rune_char_n x 2 t = (b, t')"
  shows "t' = t\<lparr>last_rune := None\<rparr>"
    and "b \<Longrightarrow> \<exists>a sa sb us. reader t = (a, sa) # (x, sb) # us"
proof -
  show "t' = t\<lparr>last_rune := None\<rparr>"
    using assms
    by (auto simp: check_next_rune_char_n_def peek_multirune_def Let_def split: sum.splits if_splits)
  assume b
  show "\<exists>a sa sb us. reader t = (a, sa) # (x, sb) # us"
  proof (cases "reader t")
    case Nil
    with assms \<open>b\<close> show ?thesis
      by (simp add: check_next_rune_char_n_def peek_multirune_def)
  next
    case (Cons u us)
    note outer = Cons
    obtain a sa where u: "u = (a, sa)" by (cases u)
    show ?thesis
    proof (cases us)
      case Nil
      with assms \<open>b\<close> outer u show ?thesis
        by (simp add: check_next_rune_char_n_def peek_multirune_def numeral_2_eq_2 split: if_splits)
    next
      case (Cons v vs)
      obtain y sb where v: "v = (y, sb)" by (cases v)
      from assms \<open>b\<close> outer u Cons v have "y = x"
        by (simp add: check_next_rune_char_n_def peek_multirune_def numeral_2_eq_2 split: if_splits)
      with outer u Cons v show ?thesis by simp
    qed
  qed
qed

lemma comment_token_cases:
  assumes "comment_token all_runes ts = (r, ts')"
  shows "all_runes = [] \<Longrightarrow> r = NoTok \<and> ts' = ts"
    and "all_runes \<noteq> [] \<Longrightarrow>
           r = Tok \<lparr>Text = all_runes, NumBytes = last_byte_len ts, NumChars = length all_runes,
                     FirstRune = 47, Type = TokenTypeComment\<rparr> \<and>
           ts' = ts\<lparr>LastToken := Some \<lparr>Text = all_runes, NumBytes = last_byte_len ts,
                     NumChars = length all_runes, FirstRune = 47, Type = TokenTypeComment\<rparr>\<rparr>"
  using assms by (auto simp: comment_token_def Let_def split: if_splits)

lemma get_comment_cases:
  assumes "get_comment c ts = (r, ts')"
  obtains pre where
    "reader ts = pre @ reader ts'" "pos ts' = pos ts"
    "r = NoTok \<Longrightarrow> pre = [] \<and> LastToken ts' = LastToken ts \<and>
        last_byte_len ts' = last_byte_len ts \<and> last_col ts' = last_col ts \<and>
        last_line_addition ts' = last_line_addition ts"
    "\<And>e. r = Fail e \<Longrightarrow> e = EOF \<and> reader ts' = [] \<and> LastToken ts' = LastToken ts"
    "\<And>t. r = Tok t \<Longrightarrow> pre \<noteq> [] \<and> LastToken ts' = Some t \<and> Text t = map fst pre \<and>
        NumChars t = length pre \<and> FirstRune t = 47 \<and> fst (hd pre) = 47 \<and>
        Type t = TokenTypeComment \<and> NumBytes t = last_byte_len ts'"
    "\<And>t. r = Tok t \<Longrightarrow> \<not> block_open (reader ts) \<Longrightarrow>
        last_byte_len ts' = last_byte_len ts + bytes pre \<and>
        last_line_addition ts' = last_line_addition ts + eols c pre"
proof (cases "reader ts")
  case Nil
  with assms have "r = Fail EOF" "ts' = ts\<lparr>last_rune := None, last_err := Some EOF\<rparr>"
    by (simp_all add: get_comment_def get_one_rune_Nil)
  with Nil show thesis
    by (intro that [of "[]"]) simp_all
next
  case (Cons u us)
  obtain ch sz where u: "u = (ch, sz)" by (cases u)
  show thesis
  proof (cases "ch = 47")
    case False
    with assms Cons u have "r = NoTok" "ts' = ts\<lparr>reader := (ch, sz) # us, last_rune := None\<rparr>"
      by (simp_all add: get_comment_def get_one_rune_Cons unread_rune_def)
    with Cons u show thesis
      by (intro that [of "[]"]) simp_all
  next
    case True
    let ?ts3 = "ts\<lparr>reader := (ch, sz) # us, last_rune := None\<rparr>"
    have unfold: "get_comment c ts =
          (case check_next_rune_char_n 47 2 ?ts3 of
                    (True, ts3) \<Rightarrow>
                      (case get_n_runes c 2 ts3 of
                         ((chars, n, Some err), ts4) \<Rightarrow> (Fail err, ts4)
                       | ((chars, n, None), ts4) \<Rightarrow>
                           (case read_until c (eol c) ts4 of
                              (Inl err, ts5) \<Rightarrow>
                                if err \<noteq> EOF then (Fail err, ts5)
                                else comment_token chars ts5
                            | (Inr chars2, ts5) \<Rightarrow> comment_token (chars @ chars2) ts5))
                  | (False, ts3) \<Rightarrow>
                      (case check_next_rune_char_n 42 2 ts3 of
                         (True, ts4) \<Rightarrow>
                           (case get_n_runes c 2 ts4 of
                              ((chars, n, Some err), ts5) \<Rightarrow> (Fail err, ts5)
                            | ((chars, n, None), ts5) \<Rightarrow>
                                (case block_comment_loop c chars ts5 of
                                   (Inl err, ts6) \<Rightarrow> (Fail err, ts6)
                                 | (Inr all_runes, ts6) \<Rightarrow> comment_token all_runes ts6))
                       | (False, ts4) \<Rightarrow> comment_token [] ts4))"
      using Cons u True by (simp add: get_comment_def get_one_rune_Cons unread_rune_def)
    let ?ts4 = "?ts3\<lparr>last_rune := None\<rparr>"
    have f4: "reader ?ts4 = reader ts" "pos ?ts4 = pos ts" "LastToken ?ts4 = LastToken ts"
      "last_byte_len ?ts4 = last_byte_len ts" "last_line_addition ?ts4 = last_line_addition ts"
      "last_col ?ts4 = last_col ts"
      using Cons u by simp_all
    obtain b1 t1 where c1: "check_next_rune_char_n 47 2 ?ts3 = (b1, t1)"
      by (cases "check_next_rune_char_n 47 2 ?ts3")
    have t1: "t1 = ?ts4" using check_next_rune_char_n_2(1) [OF c1] .
    show thesis
    proof (cases b1)
      case True
      obtain chars n e ts5 where gn: "get_n_runes c 2 ?ts4 = ((chars, n, e), ts5)"
        by (cases "get_n_runes c 2 ?ts4") auto
      from gn obtain pre where
        pre: "reader ?ts4 = pre @ reader ts5" "pos ts5 = pos ?ts4" "LastToken ts5 = LastToken ?ts4"
             "chars = map fst pre"
             "last_byte_len ts5 = last_byte_len ?ts4 + bytes pre"
             "last_line_addition ts5 = last_line_addition ?ts4 + eols c pre"
             "e = None \<Longrightarrow> length pre = 2"
             "\<And>err. e = Some err \<Longrightarrow> err = EOF \<and> reader ts5 = []"
        by (rule get_n_runes_cases) blast
      show thesis
      proof (cases e)
        case (Some err)
        with assms unfold c1 t1 True gn have "r = Fail err" "ts' = ts5"
          by simp_all
        with pre Some f4 show thesis
          by (intro that [of pre]) simp_all
      next
        case None
        have pre2: "length pre = 2" using pre(7) None by simp
        then have pne: "pre \<noteq> []" by auto
        have hd47: "fst (hd pre) = 47"
          using pre(1) pne Cons u \<open>ch = 47\<close> by (cases pre) auto
        obtain r6 ts6 where ru: "read_until c (eol c) ts5 = (r6, ts6)"
          by (cases "read_until c (eol c) ts5")
        from ru obtain pre6 where
          pre6: "reader ts5 = pre6 @ reader ts6" "pos ts6 = pos ts5" "LastToken ts6 = LastToken ts5"
                "last_byte_len ts6 = last_byte_len ts5 + bytes pre6"
                "last_line_addition ts6 = last_line_addition ts5 + eols c pre6"
                "\<And>err. r6 = Inl err \<Longrightarrow> eol c \<noteq> eol c"
                "\<And>rs. r6 = Inr rs \<Longrightarrow> rs = map fst pre6"
          by (rule read_until_cases) blast
        from pre6(6) obtain chars2 where r6: "r6 = Inr chars2" by (cases r6) auto
        have chars2: "chars2 = map fst pre6" using pre6(7) r6 by simp
        define t where "t = \<lparr>Text = chars @ chars2, NumBytes = last_byte_len ts6,
                     NumChars = length (chars @ chars2), FirstRune = 47, Type = TokenTypeComment\<rparr>"
        have ne: "chars @ chars2 \<noteq> []" using pre(4) pne by simp
        from assms unfold c1 t1 True gn None ru r6
        have "comment_token (chars @ chars2) ts6 = (r, ts')"
          by simp
        from comment_token_cases(2) [OF this ne]
        have res: "r = Tok t" "ts' = ts6\<lparr>LastToken := Some t\<rparr>"
          by (simp_all add: t_def)
        show thesis
        proof (rule that [of "pre @ pre6"])
          show "reader ts = (pre @ pre6) @ reader ts'"
            using pre(1) pre6(1) f4 res by simp
          show "pos ts' = pos ts"
            using pre(2) pre6(2) f4 res by simp
        next
          fix t' assume "r = Tok t'"
          then have "t' = t" using res by simp
          then show "pre @ pre6 \<noteq> [] \<and> LastToken ts' = Some t' \<and> Text t' = map fst (pre @ pre6) \<and>
              NumChars t' = length (pre @ pre6) \<and> FirstRune t' = 47 \<and> fst (hd (pre @ pre6)) = 47 \<and>
              Type t' = TokenTypeComment \<and> NumBytes t' = last_byte_len ts'"
            using pne hd47 res pre(4) chars2 by (simp add: t_def)
          show "last_byte_len ts' = last_byte_len ts + bytes (pre @ pre6) \<and>
                last_line_addition ts' = last_line_addition ts + eols c (pre @ pre6)"
            using res pre(5,6) pre6(4,5) f4 by simp
        qed (use res in simp_all)
      qed
    next
      case False
      let ?ts5 = "?ts4\<lparr>last_rune := None\<rparr>"
      have f5: "reader ?ts5 = reader ts" "pos ?ts5 = pos ts" "LastToken ?ts5 = LastToken ts"
        "last_byte_len ?ts5 = last_byte_len ts" "last_line_addition ?ts5 = last_line_addition ts"
        "last_col ?ts5 = last_col ts"
        using Cons u by simp_all
      obtain b2 t2 where c2: "check_next_rune_char_n 42 2 ?ts4 = (b2, t2)"
        by (cases "check_next_rune_char_n 42 2 ?ts4")
      have t2: "t2 = ?ts5" using check_next_rune_char_n_2(1) [OF c2] .
      show thesis
      proof (cases b2)
        case False
        from assms unfold c1 t1 \<open>\<not> b1\<close> c2 t2 False
        have "comment_token [] ?ts5 = (r, ts')"
          by simp
        from comment_token_cases(1) [OF this] have "r = NoTok" "ts' = ?ts5"
          by simp_all
        with f5 show thesis
          by (intro that [of "[]"]) simp_all
      next
        case True
        from check_next_rune_char_n_2(2) [OF c2 True] Cons u \<open>ch = 47\<close>
        have bo: "block_open (reader ts)"
          by (auto simp: block_open_def)
        obtain chars n e ts6 where gn: "get_n_runes c 2 ?ts5 = ((chars, n, e), ts6)"
          by (cases "get_n_runes c 2 ?ts5") auto
        from gn obtain pre where
          pre: "reader ?ts5 = pre @ reader ts6" "pos ts6 = pos ?ts5" "LastToken ts6 = LastToken ?ts5"
               "chars = map fst pre"
               "e = None \<Longrightarrow> length pre = 2"
               "\<And>err. e = Some err \<Longrightarrow> err = EOF \<and> reader ts6 = []"
          by (rule get_n_runes_cases) blast
        show thesis
        proof (cases e)
          case (Some err)
          with assms unfold c1 t1 \<open>\<not> b1\<close> c2 t2 True gn have "r = Fail err" "ts' = ts6"
            by simp_all
          with pre Some f5 show thesis
            by (intro that [of pre]) simp_all
        next
          case None
          have pre2: "length pre = 2" using pre(5) None by simp
          then have pne: "pre \<noteq> []" by auto
          have hd47: "fst (hd pre) = 47"
            using pre(1) pne Cons u \<open>ch = 47\<close> by (cases pre) auto
          obtain r7 ts7 where bl: "block_comment_loop c chars ts6 = (r7, ts7)"
            by (cases "block_comment_loop c chars ts6")
          from bl obtain pre7 where
            pre7: "reader ts6 = pre7 @ reader ts7" "pos ts7 = pos ts6" "LastToken ts7 = LastToken ts6"
                  "\<And>err. r7 = Inl err \<Longrightarrow> err = EOF \<and> reader ts7 = []"
                  "\<And>rs. r7 = Inr rs \<Longrightarrow> rs = chars @ map fst pre7 \<and> pre7 \<noteq> []"
            by (rule block_comment_loop_cases) blast
          show thesis
          proof (cases r7)
            case (Inl err)
            with assms unfold c1 t1 \<open>\<not> b1\<close> c2 t2 True gn None bl have "r = Fail err" "ts' = ts7"
              by simp_all
            with pre pre7 Inl f5 show thesis
              by (intro that [of "pre @ pre7"]) simp_all
          next
            case (Inr all_runes)
            have all: "all_runes = map fst (pre @ pre7)"
              using pre7(5) [OF Inr] pre(4) by simp
            then have ne: "all_runes \<noteq> []" using pne by simp
            define t where "t = \<lparr>Text = all_runes, NumBytes = last_byte_len ts7,
                     NumChars = length all_runes, FirstRune = 47, Type = TokenTypeComment\<rparr>"
            from assms unfold c1 t1 \<open>\<not> b1\<close> c2 t2 True gn None bl Inr
            have "comment_token all_runes ts7 = (r, ts')"
              by simp
            from comment_token_cases(2) [OF this ne]
            have res: "r = Tok t" "ts' = ts7\<lparr>LastToken := Some t\<rparr>"
              by (simp_all add: t_def)
            show thesis
            proof (rule that [of "pre @ pre7"])
              show "reader ts = (pre @ pre7) @ reader ts'"
                using pre(1) pre7(1) f5 res by simp
              show "pos ts' = pos ts"
                using pre(2) pre7(2) f5 res by simp
            next
              fix t' assume "r = Tok t'"
              then have "t' = t" using res by simp
              then show "pre @ pre7 \<noteq> [] \<and> LastToken ts' = Some t' \<and>
                  Text t' = map fst (pre @ pre7) \<and>
                  NumChars t' = length (pre @ pre7) \<and> FirstRune t' = 47 \<and>
                  fst (hd (pre @ pre7)) = 47 \<and>
                  Type t' = TokenTypeComment \<and> NumBytes t' = last_byte_len ts'"
                using pne hd47 res all by (simp add: t_def)
              assume "\<not> block_open (reader ts)"
              with bo show "last_byte_len ts' = last_byte_len ts + bytes (pre @ pre7) \<and>
                last_line_addition ts' = last_line_addition ts + eols c (pre @ pre7)"
                by simp
            qed (use res in simp_all)
          qed
        qed
      qed
    qed
  qed
qed

text \<open>The two-rune lookahead of \<open>get_number\<close>, read off the remaining input.\<close>

definition digit_follows :: "config \<Rightarrow> (rune \<times> nat) list \<Rightarrow> bool" where
  "digit_follows c us = (case us of [] \<Rightarrow> False | (d, sd) # vs \<Rightarrow> d \<noteq> RuneError \<and> IsDigitRune c d)"

lemma check_next_rune_class_n_2:
  assumes "reader t = (ch, sz) # us" "ch \<noteq> RuneError"
  shows "check_next_rune_class_n (IsDigitRune c) 2 t = (digit_follows c us, t\<lparr>last_rune := None\<rparr>)"
proof (cases us)
  case Nil
  with assms show ?thesis
    by (simp add: check_next_rune_class_n_def peek_multirune_def digit_follows_def numeral_2_eq_2)
next
  case (Cons v vs)
  obtain d sd where "v = (d, sd)" by (cases v)
  with Cons assms show ?thesis
    by (simp add: check_next_rune_class_n_def peek_multirune_def digit_follows_def numeral_2_eq_2)
qed

lemma get_number_loop_Nil:
  assumes "reader ts = []"
  shows "get_number_loop c runes total_size found_digits found_decimal is_float ts =
     (if runes \<noteq> [] then (Inr (runes, total_size, is_float), ts\<lparr>last_rune := None, last_err := Some EOF\<rparr>)
      else (Inl EOF, ts\<lparr>last_rune := None, last_err := Some EOF\<rparr>))"
  using assms
  by (simp add: get_number_loop.simps [of c runes total_size found_digits found_decimal is_float ts]
        get_one_rune_Nil)

lemma get_number_loop_Cons:
  assumes "reader ts = (ch, sz) # us"
  shows "get_number_loop c runes total_size found_digits found_decimal is_float ts =
     (if ch = 46 \<and> found_digits \<and> \<not> found_decimal then
        (if digit_follows c us
         then get_number_loop c (runes @ [ch]) (total_size + sz) found_digits True True
                (ts\<lparr>reader := us, last_rune := Some (ch, sz), last_col := last_col ts + 1\<rparr>)
         else (Inr (runes, total_size, is_float), ts\<lparr>reader := (ch, sz) # us, last_rune := None\<rparr>))
      else if ch = 45 \<and> \<not> found_digits then
        (if digit_follows c us
         then get_number_loop c (runes @ [ch]) (total_size + sz) found_digits found_decimal is_float
                (ts\<lparr>reader := us, last_rune := Some (ch, sz), last_col := last_col ts + 1\<rparr>)
         else (Inr (runes, total_size, is_float), ts\<lparr>reader := (ch, sz) # us, last_rune := None\<rparr>))
      else if IsDigitRune c ch then
        get_number_loop c (runes @ [ch]) (total_size + sz) True found_decimal is_float
          (count_rune c ch (ts\<lparr>reader := us, last_rune := Some (ch, sz)\<rparr>))
      else (Inr (runes, total_size, is_float), ts\<lparr>reader := (ch, sz) # us, last_rune := None\<rparr>))"
proof -
  have g: "get_one_rune ts = (Inr (ch, sz), ts\<lparr>reader := us, last_rune := Some (ch, sz)\<rparr>)"
    using assms by (rule get_one_rune_Cons)
  have u: "unread_rune (ts\<lparr>reader := us, last_rune := Some (x, sz)\<rparr>) =
             (None, ts\<lparr>reader := (x, sz) # us, last_rune := None\<rparr>)" for x
    by (simp add: unread_rune_def)
  have p: "check_next_rune_class_n (IsDigitRune c) 2 (ts\<lparr>reader := (x, sz) # us, last_rune := None\<rparr>) =
          (digit_follows c us, ts\<lparr>reader := (x, sz) # us, last_rune := None\<rparr>)"
    if "x \<noteq> RuneError" for x
    using check_next_rune_class_n_2 [of "ts\<lparr>reader := (x, sz) # us, last_rune := None\<rparr>" x sz us c] that
    by simp
  have g2: "get_one_rune (ts\<lparr>reader := (x, sz) # us, last_rune := None, last_col := k\<rparr>) =
     (Inr (x, sz), ts\<lparr>reader := us, last_rune := Some (x, sz), last_col := k\<rparr>)" for x k
    by (simp add: get_one_rune_def ReadRune_def)
  show ?thesis
    by (subst get_number_loop.simps) (simp add: g u p g2 RuneError_def)
qed

lemma get_number_loop_consumes:
  "get_number_loop c runes total_size found_digits found_decimal is_float ts = (r, ts') \<Longrightarrow>
     pos ts' = pos ts \<and> LastToken ts' = LastToken ts \<and> last_byte_len ts' = last_byte_len ts \<and>
     (\<forall>err. r = Inl err \<longrightarrow> err = EOF \<and> runes = [] \<and> reader ts = [] \<and> reader ts' = [] \<and>
                   last_line_addition ts' = last_line_addition ts \<and> last_col ts' = last_col ts) \<and>
     (\<forall>rs n f. r = Inr (rs, n, f) \<longrightarrow>
          (\<exists>pre. reader ts = pre @ reader ts' \<and> rs = runes @ map fst pre \<and>
                 n = total_size + bytes pre \<and>
                 (eol c \<noteq> 46 \<and> eol c \<noteq> 45 \<longrightarrow>
                    last_line_addition ts' = last_line_addition ts + eols c pre) \<and>
                 (pre = [] \<longrightarrow> last_col ts' = last_col ts \<and>
                    last_line_addition ts' = last_line_addition ts)))"
proof (induction "length (reader ts)" arbitrary: runes total_size found_digits found_decimal is_float ts
         rule: less_induct)
  case less
  show ?case
  proof (cases "reader ts")
    case Nil
    with less.prems show ?thesis
      by (auto simp: get_number_loop_Nil split: if_splits)
  next
    case (Cons u us)
    obtain ch sz where u: "u = (ch, sz)" by (cases u)
    have rd: "reader ts = (ch, sz) # us" using Cons u by simp
    note step = get_number_loop_Cons [OF rd, of c runes total_size found_digits found_decimal is_float]
    have stop: ?thesis
      if "r = Inr (runes, total_size, is_float)" "ts' = ts\<lparr>reader := (ch, sz) # us, last_rune := None\<rparr>"
      using that rd by simp
    have go: ?thesis
      if rec: "get_number_loop c (runes @ [ch]) (total_size + sz) fd fdec isf t2 = (r, ts')"
        and t2: "reader t2 = us" "pos t2 = pos ts" "LastToken t2 = LastToken ts"
                "last_byte_len t2 = last_byte_len ts"
                "eol c \<noteq> 46 \<and> eol c \<noteq> 45 \<longrightarrow>
                   last_line_addition t2 = last_line_addition ts + eols c [(ch, sz)]"
      for fd fdec isf t2
    proof -
      have "length (reader t2) < length (reader ts)" using t2(1) rd by simp
      note IH = less.hyps [OF this rec]
      have "\<exists>pre. reader ts = pre @ reader ts' \<and> rs = runes @ map fst pre \<and>
                 n = total_size + bytes pre \<and>
                 (eol c \<noteq> 46 \<and> eol c \<noteq> 45 \<longrightarrow>
                    last_line_addition ts' = last_line_addition ts + eols c pre) \<and>
                 (pre = [] \<longrightarrow> last_col ts' = last_col ts \<and>
                    last_line_addition ts' = last_line_addition ts)"
        if "r = Inr (rs, n, f)" for rs n f
      proof -
        from IH that obtain pre where
          pre: "reader t2 = pre @ reader ts'" "rs = (runes @ [ch]) @ map fst pre"
               "n = total_size + sz + bytes pre"
               "eol c \<noteq> 46 \<and> eol c \<noteq> 45 \<longrightarrow>
                    last_line_addition ts' = last_line_addition t2 + eols c pre"
          by blast
        show ?thesis
          using pre t2 rd by (intro exI [of _ "(ch, sz) # pre"]) auto
      qed
      with IH t2 show ?thesis by auto
    qed
    from less.prems have res:
      "(if ch = 46 \<and> found_digits \<and> \<not> found_decimal then
        (if digit_follows c us
         then get_number_loop c (runes @ [ch]) (total_size + sz) found_digits True True
                (ts\<lparr>reader := us, last_rune := Some (ch, sz), last_col := last_col ts + 1\<rparr>)
         else (Inr (runes, total_size, is_float), ts\<lparr>reader := (ch, sz) # us, last_rune := None\<rparr>))
      else if ch = 45 \<and> \<not> found_digits then
        (if digit_follows c us
         then get_number_loop c (runes @ [ch]) (total_size + sz) found_digits found_decimal is_float
                (ts\<lparr>reader := us, last_rune := Some (ch, sz), last_col := last_col ts + 1\<rparr>)
         else (Inr (runes, total_size, is_float), ts\<lparr>reader := (ch, sz) # us, last_rune := None\<rparr>))
      else if IsDigitRune c ch then
        get_number_loop c (runes @ [ch]) (total_size + sz) True found_decimal is_float
          (count_rune c ch (ts\<lparr>reader := us, last_rune := Some (ch, sz)\<rparr>))
      else (Inr (runes, total_size, is_float), ts\<lparr>reader := (ch, sz) # us, last_rune := None\<rparr>))
       = (r, ts')"
      unfolding step .
    let ?t2 = "ts\<lparr>reader := us, last_rune := Some (ch, sz), last_col := last_col ts + 1\<rparr>"
    have t2: "reader ?t2 = us" "pos ?t2 = pos ts" "LastToken ?t2 = LastToken ts"
                "last_byte_len ?t2 = last_byte_len ts"
      by simp_all
    let ?t3 = "count_rune c ch (ts\<lparr>reader := us, last_rune := Some (ch, sz)\<rparr>)"
    have t3: "reader ?t3 = us" "pos ?t3 = pos ts" "LastToken ?t3 = LastToken ts"
                "last_byte_len ?t3 = last_byte_len ts"
                "last_line_addition ?t3 = last_line_addition ts + eols c [(ch, sz)]"
      by (simp_all add: count_rune_def)
    show ?thesis
    proof (cases "ch = 46 \<and> found_digits \<and> \<not> found_decimal")
      case True
      show ?thesis
      proof (cases "digit_follows c us")
        case False
        with True res have "r = Inr (runes, total_size, is_float)"
          "ts' = ts\<lparr>reader := (ch, sz) # us, last_rune := None\<rparr>" by simp_all
        then show ?thesis by (rule stop)
      next
        case df: True
        with True res have rec: "get_number_loop c (runes @ [ch]) (total_size + sz) found_digits True True ?t2 = (r, ts')"
          by simp
        show ?thesis
          by (rule go [OF rec t2]) (use True in simp)
      qed
    next
      case n46: False
      show ?thesis
      proof (cases "ch = 45 \<and> \<not> found_digits")
        case True
        show ?thesis
        proof (cases "digit_follows c us")
          case False
          with True n46 res have "r = Inr (runes, total_size, is_float)"
            "ts' = ts\<lparr>reader := (ch, sz) # us, last_rune := None\<rparr>" by (auto split: if_splits)
          then show ?thesis by (rule stop)
        next
          case df: True
          with True n46 res
          have rec: "get_number_loop c (runes @ [ch]) (total_size + sz) found_digits found_decimal is_float ?t2 = (r, ts')"
            by (auto split: if_splits)
          show ?thesis
            by (rule go [OF rec t2]) (use True in simp)
        qed
      next
        case n45: False
        show ?thesis
        proof (cases "IsDigitRune c ch")
          case False
          with n45 n46 res have "r = Inr (runes, total_size, is_float)"
            "ts' = ts\<lparr>reader := (ch, sz) # us, last_rune := None\<rparr>" by (auto split: if_splits)
          then show ?thesis by (rule stop)
        next
          case True
          with n45 n46 res
          have rec: "get_number_loop c (runes @ [ch]) (total_size + sz) True found_decimal is_float ?t3 = (r, ts')"
            by (auto split: if_splits)
          show ?thesis
            by (rule go [OF rec t3(1-4)]) (use t3(5) in simp)
        qed
      qed
    qed
  qed
qed

lemma get_number_cases:
  assumes "get_number c ts = (r, ts')"
  obtains pre where
    "reader ts = pre @ reader ts'" "pos ts' = pos ts"
    "eol c \<noteq> 46 \<and> eol c \<noteq> 45 \<Longrightarrow> last_line_addition ts' = last_line_addition ts + eols c pre"
    "r = NoTok \<Longrightarrow> pre = [] \<and> LastToken ts' = LastToken ts \<and>
        last_byte_len ts' = last_byte_len ts \<and> last_col ts' = last_col ts \<and>
        last_line_addition ts' = last_line_addition ts"
    "\<And>e. r = Fail e \<Longrightarrow> e = EOF \<and> pre = [] \<and> reader ts' = [] \<and>
        LastToken ts' = LastToken ts \<and> last_byte_len ts' = last_byte_len ts \<and>
        last_col ts' = last_col ts \<and> last_line_addition ts' = last_line_addition ts"
    "\<And>t. r = Tok t \<Longrightarrow> pre \<noteq> [] \<and> LastToken ts' = Some t \<and> last_byte_len ts' = bytes pre \<and>
        Text t = map fst pre \<and> NumBytes t = bytes pre \<and> NumChars t = length pre \<and>
        FirstRune t = fst (hd pre) \<and> (Type t = TokenTypeInt \<or> Type t = TokenTypeFloat)"
proof -
  obtain r1 ts1 where l: "get_number_loop c [] 0 False False False ts = (r1, ts1)"
    by (cases "get_number_loop c [] 0 False False False ts")
  note L = get_number_loop_consumes [OF l]
  show thesis
  proof (cases r1)
    case (Inl err)
    with L l assms have "r = Fail err" "ts' = ts1" "err = EOF" "reader ts = []" "reader ts1 = []"
      "last_line_addition ts1 = last_line_addition ts" "last_col ts1 = last_col ts"
      by (simp_all add: get_number_def)
    with L show thesis
      by (intro that [of "[]"]) simp_all
  next
    case (Inr p)
    obtain rs n f where p: "p = (rs, n, f)" by (cases p)
    from L Inr p obtain pre where
      pre: "reader ts = pre @ reader ts1" "rs = map fst pre" "n = bytes pre"
           "eol c \<noteq> 46 \<and> eol c \<noteq> 45 \<longrightarrow> last_line_addition ts1 = last_line_addition ts + eols c pre"
           "pre = [] \<longrightarrow> last_col ts1 = last_col ts \<and> last_line_addition ts1 = last_line_addition ts"
      by auto
    show thesis
    proof (cases "rs = []")
      case True
      with l Inr p assms have "r = NoTok" "ts' = ts1"
        by (simp_all add: get_number_def)
      with L pre True show thesis
        by (intro that [of pre]) simp_all
    next
      case False
      define t where "t = \<lparr>Text = rs, NumBytes = n, NumChars = length rs,
                           FirstRune = hd rs,
                           Type = (if f then TokenTypeFloat else TokenTypeInt)\<rparr>"
      from False l Inr p assms
      have "r = Tok t" "ts' = ts1\<lparr>last_byte_len := n, LastToken := Some t\<rparr>"
        by (simp_all add: get_number_def Let_def t_def)
      with L pre False show thesis
        by (intro that [of pre]) (auto simp: t_def hd_map)
    qed
  qed
qed

lemma get_ident_loop_consumes:
  "get_ident_loop c i runes total_size ts = (r, ts') \<Longrightarrow>
     pos ts' = pos ts \<and> LastToken ts' = LastToken ts \<and> last_byte_len ts' = last_byte_len ts \<and>
     (\<forall>err. r = Inl err \<longrightarrow> err = Some EOF \<and> runes = [] \<and> reader ts = [] \<and> reader ts' = [] \<and>
                   last_line_addition ts' = last_line_addition ts \<and> last_col ts' = last_col ts) \<and>
     (\<forall>rs n. r = Inr (rs, n) \<longrightarrow>
          (\<exists>pre. reader ts = pre @ reader ts' \<and> rs = runes @ map fst pre \<and>
                 n = total_size + bytes pre \<and>
                 last_line_addition ts' = last_line_addition ts + eols c pre \<and>
                 (pre = [] \<longrightarrow> last_col ts' = last_col ts)))"
proof (induction "length (reader ts)" arbitrary: i runes total_size ts rule: less_induct)
  case less
  show ?case
  proof (cases "reader ts")
    case Nil
    with less.prems show ?thesis
      by (auto simp: get_ident_loop.simps [of c i runes total_size ts] get_one_rune_Nil
               split: if_splits)
  next
    case (Cons u us)
    obtain ch sz where u: "u = (ch, sz)" by (cases u)
    have rd: "reader ts = (ch, sz) # us" using Cons u by simp
    let ?t3 = "count_rune c ch (ts\<lparr>reader := us, last_rune := Some (ch, sz)\<rparr>)"
    have t3: "reader ?t3 = us" "pos ?t3 = pos ts" "LastToken ?t3 = LastToken ts"
                "last_byte_len ?t3 = last_byte_len ts"
                "last_line_addition ?t3 = last_line_addition ts + eols c [(ch, sz)]"
      by (simp_all add: count_rune_def)
    show ?thesis
    proof (cases "IsIdentRune c ch i")
      case False
      with less.prems rd have "r = Inr (runes, total_size)"
        "ts' = ts\<lparr>reader := (ch, sz) # us, last_rune := None\<rparr>"
        by (simp_all add: get_ident_loop.simps [of c i runes total_size ts] get_one_rune_Cons
              unread_rune_def)
      with rd show ?thesis by simp
    next
      case True
      with less.prems rd
      have rec: "get_ident_loop c (i + 1) (runes @ [ch]) (total_size + sz) ?t3 = (r, ts')"
        by (simp add: get_ident_loop.simps [of c i runes total_size ts] get_one_rune_Cons)
      have "length (reader ?t3) < length (reader ts)" using t3(1) rd by simp
      note IH = less.hyps [OF this rec]
      have "\<exists>pre. reader ts = pre @ reader ts' \<and> rs = runes @ map fst pre \<and>
                 n = total_size + bytes pre \<and>
                 last_line_addition ts' = last_line_addition ts + eols c pre \<and>
                 (pre = [] \<longrightarrow> last_col ts' = last_col ts)"
        if "r = Inr (rs, n)" for rs n
      proof -
        from IH that obtain pre where
          pre: "reader ?t3 = pre @ reader ts'" "rs = (runes @ [ch]) @ map fst pre"
               "n = total_size + sz + bytes pre"
               "last_line_addition ts' = last_line_addition ?t3 + eols c pre"
          by blast
        show ?thesis
          using pre t3 rd by (intro exI [of _ "(ch, sz) # pre"]) auto
      qed
      with IH t3 show ?thesis by auto
    qed
  qed
qed

lemma get_ident_cases:
  assumes "get_ident c ts = (r, ts')"
  obtains pre where
    "reader ts = pre @ reader ts'" "pos ts' = pos ts"
    "last_line_addition ts' = last_line_addition ts + eols c pre"
    "r = NoTok \<Longrightarrow> pre = [] \<and> LastToken ts' = LastToken ts \<and>
        last_byte_len ts' = last_byte_len ts \<and> last_col ts' = last_col ts"
    "\<And>e. r = Fail e \<Longrightarrow> e = EOF \<and> pre = [] \<and> reader ts' = [] \<and>
        LastToken ts' = LastToken ts \<and> last_byte_len ts' = last_byte_len ts \<and>
        last_col ts' = last_col ts"
    "\<And>t. r = Tok t \<Longrightarrow> pre \<noteq> [] \<and> LastToken ts' = Some t \<and> last_byte_len ts' = bytes pre \<and>
        t = \<lparr>Text = map fst pre, NumBytes = bytes pre, NumChars = length pre,
             FirstRune = fst (hd pre), Type = TokenTypeIdent\<rparr>"
proof -
  obtain r1 ts1 where l: "get_ident_loop c 0 [] 0 ts = (r1, ts1)"
    by (cases "get_ident_loop c 0 [] 0 ts")
  note L = get_ident_loop_consumes [OF l]
  show thesis
  proof (cases r1)
    case (Inl err)
    with L l assms have "r = Fail EOF" "ts' = ts1" "reader ts = []" "reader ts1 = []"
      "last_line_addition ts1 = last_line_addition ts" "last_col ts1 = last_col ts"
      by (simp_all add: get_ident_def)
    with L show thesis
      by (intro that [of "[]"]) simp_all
  next
    case (Inr p)
    obtain rs n where p: "p = (rs, n)" by (cases p)
    from L Inr p obtain pre where
      pre: "reader ts = pre @ reader ts1" "rs = map fst pre" "n = bytes pre"
           "last_line_addition ts1 = last_line_addition ts + eols c pre"
           "pre = [] \<longrightarrow> last_col ts1 = last_col ts"
      by auto
    show thesis
    proof (cases "rs = []")
      case True
      with l Inr p assms have "r = NoTok" "ts' = ts1"
        by (simp_all add: get_ident_def)
      with L pre True show thesis
        by (intro that [of pre]) simp_all
    next
      case False
      define t where "t = \<lparr>Text = rs, NumBytes = n, NumChars = length rs,
                           FirstRune = hd rs, Type = TokenTypeIdent\<rparr>"
      from False l Inr p assms
      have "r = Tok t" "ts' = ts1\<lparr>last_byte_len := n, LastToken := Some t\<rparr>"
        by (simp_all add: get_ident_def Let_def t_def)
      with L pre False show thesis
        by (intro that [of pre]) (auto simp: t_def hd_map)
    qed
  qed
qed

lemma get_quoted_loop_consumes:
  "get_quoted_loop c closing_char all_runes ts = (r, ts') \<Longrightarrow>
     pos ts' = pos ts \<and> LastToken ts' = LastToken ts \<and>
     (\<exists>pre. reader ts = pre @ reader ts' \<and>
            last_byte_len ts' = last_byte_len ts + bytes pre \<and>
            last_line_addition ts' = last_line_addition ts + eols c pre \<and>
            (\<forall>e. r = Inl e \<longrightarrow>
               e = ErrUnterminated (pos ts) closing_char \<and> reader ts' = [] \<and> closing_char \<noteq> eol c))"
proof (induction "length (reader ts)" arbitrary: all_runes ts rule: less_induct)
  case less
  obtain r1 ts1 where ru: "read_until c closing_char ts = (r1, ts1)"
    by (cases "read_until c closing_char ts")
  from ru obtain pre1 where
    pre1: "reader ts = pre1 @ reader ts1" "pos ts1 = pos ts" "LastToken ts1 = LastToken ts"
          "last_byte_len ts1 = last_byte_len ts + bytes pre1"
          "last_line_addition ts1 = last_line_addition ts + eols c pre1"
          "\<And>err. r1 = Inl err \<Longrightarrow> reader ts1 = [] \<and> closing_char \<noteq> eol c"
          "\<And>rs. r1 = Inr rs \<Longrightarrow> rs = map fst pre1"
    by (rule read_until_cases) blast
  show ?case
  proof (cases r1)
    case (Inl err)
    with less.prems ru have "r = Inl (ErrUnterminated (pos ts1) closing_char)" "ts' = ts1"
      by (auto simp: get_quoted_loop.simps [of c closing_char all_runes ts])
    with pre1 Inl show ?thesis
      by (intro conjI exI [of _ pre1]) simp_all
  next
    case (Inr runes)
    have runes: "runes = map fst pre1" using pre1(7) Inr by simp
    show ?thesis
    proof (cases "1 < length runes \<and> IsEscapeRune c (runes ! (length runes - 1 - 1))")
      case False
      with less.prems ru Inr have "r = Inr (all_runes @ runes)" "ts' = ts1"
        by (auto simp: get_quoted_loop.simps [of c closing_char all_runes ts])
      with pre1 show ?thesis
        by (intro conjI exI [of _ pre1]) simp_all
    next
      case True
      with less.prems ru Inr
      have rec: "get_quoted_loop c closing_char
                 (all_runes @ take (length runes - 1 - 1) runes @ [runes ! (length runes - 1)]) ts1
                   = (r, ts')"
        by (simp add: get_quoted_loop.simps [of c closing_char all_runes ts])
      have "length (reader ts1) < length (reader ts)"
        using True runes pre1(1) by auto
      from less.hyps [OF this rec] obtain pre where
        pre: "reader ts1 = pre @ reader ts'"
             "last_byte_len ts' = last_byte_len ts1 + bytes pre"
             "last_line_addition ts' = last_line_addition ts1 + eols c pre"
             "\<forall>e. r = Inl e \<longrightarrow>
               e = ErrUnterminated (pos ts1) closing_char \<and> reader ts' = [] \<and> closing_char \<noteq> eol c"
        and same: "pos ts' = pos ts1" "LastToken ts' = LastToken ts1"
        by blast
      show ?thesis
        using pre same pre1 by (intro conjI exI [of _ "pre1 @ pre"]) simp_all
    qed
  qed
qed

lemma get_quoted_cases:
  assumes "get_quoted c ts = (r, ts')"
  obtains pre where
    "reader ts = pre @ reader ts'" "pos ts' = pos ts"
    "r = NoTok \<Longrightarrow> pre = [] \<and> LastToken ts' = LastToken ts \<and>
        last_byte_len ts' = last_byte_len ts \<and> last_col ts' = last_col ts \<and>
        last_line_addition ts' = last_line_addition ts"
    "\<And>e. r = Fail e \<Longrightarrow> reader ts' = [] \<and> LastToken ts' = LastToken ts \<and>
        (e = EOF \<or> (\<exists>q sz us. reader ts = (q, sz) # us \<and> fst (IsQuoteRune c q) \<and>
                      snd (IsQuoteRune c q) \<noteq> eol c \<and>
                      e = ErrUnterminated (pos ts) (snd (IsQuoteRune c q))))"
    "\<And>t. r = Tok t \<Longrightarrow> pre \<noteq> [] \<and> LastToken ts' = Some t \<and>
        last_byte_len ts' = last_byte_len ts + bytes pre \<and> NumBytes t = last_byte_len ts' \<and>
        last_line_addition ts' = last_line_addition ts + eols c (tl pre) \<and>
        fst (IsQuoteRune c (fst (hd pre))) \<and>
        Text t \<noteq> [] \<and> NumChars t = length (Text t) \<and> FirstRune t = hd (Text t) \<and>
        FirstRune t = fst (hd pre) \<and> Type t = TokenTypeString"
proof (cases "reader ts")
  case Nil
  with assms have "r = Fail EOF" "ts' = ts\<lparr>last_rune := None, last_err := Some EOF\<rparr>"
    by (simp_all add: get_quoted_def get_one_rune_Nil)
  with Nil show thesis
    by (intro that [of "[]"]) simp_all
next
  case (Cons u us)
  obtain ch sz where u: "u = (ch, sz)" by (cases u)
  have rd: "reader ts = (ch, sz) # us" using Cons u by simp
  obtain ok closing_char where q: "IsQuoteRune c ch = (ok, closing_char)"
    by (cases "IsQuoteRune c ch")
  show thesis
  proof (cases ok)
    case False
    with assms rd q have "r = NoTok" "ts' = ts\<lparr>reader := (ch, sz) # us, last_rune := None\<rparr>"
      by (simp_all add: get_quoted_def get_one_rune_Cons unread_rune_def)
    with rd show thesis
      by (intro that [of "[]"]) simp_all
  next
    case True
    let ?ts2 = "ts\<lparr>reader := us, last_rune := Some (ch, sz), last_byte_len := last_byte_len ts + sz\<rparr>"
    obtain r3 ts3 where l: "get_quoted_loop c closing_char [] ?ts2 = (r3, ts3)"
      by (cases "get_quoted_loop c closing_char [] ?ts2")
    from get_quoted_loop_consumes [OF l] obtain pre where
      pre: "us = pre @ reader ts3"
           "last_byte_len ts3 = last_byte_len ts + sz + bytes pre"
           "last_line_addition ts3 = last_line_addition ts + eols c pre"
           "\<forall>e. r3 = Inl e \<longrightarrow>
               e = ErrUnterminated (pos ts) closing_char \<and> reader ts3 = [] \<and> closing_char \<noteq> eol c"
      and same: "pos ts3 = pos ts" "LastToken ts3 = LastToken ts"
      by auto
    show thesis
    proof (cases r3)
      case (Inl e)
      with assms rd q True l have "r = Fail e" "ts' = ts3"
        by (simp_all add: get_quoted_def get_one_rune_Cons)
      with pre same Inl rd q True show thesis
        by (intro that [of "(ch, sz) # pre"]) auto
    next
      case (Inr all_runes)
      define t where "t = \<lparr>Text = ch # all_runes, NumBytes = last_byte_len ts3,
                                   NumChars = length all_runes + 1, FirstRune = ch,
                                   Type = TokenTypeString\<rparr>"
      from assms rd q True l Inr have "r = Tok t" "ts' = ts3\<lparr>LastToken := Some t\<rparr>"
        by (simp_all add: get_quoted_def get_one_rune_Cons Let_def t_def)
      with pre same rd q True show thesis
        by (intro that [of "(ch, sz) # pre"]) (auto simp: t_def)
    qed
  qed
qed

section \<open>The scan step\<close>

text \<open>
  The \<open>for !done\<close> loop of \<open>Scan\<close>. It returns the result of \<open>Scan\<close>, the value of the
  local \<open>err\<close> that the deferred function stores in \<open>last_err\<close>, and, for the statements
  about discarded tokens, the whitespace and comment tokens it skipped (the Go code drops
  them).
\<close>

function Scan_loop ::
  "config \<Rightarrow> Token list \<Rightarrow> TokenScanner \<Rightarrow> (bool \<times> error option \<times> Token list) \<times> TokenScanner" where
  "Scan_loop c skipped ts =
     (case get_whitespace c (update_pos ts) of
        (Tok token, ts1) \<Rightarrow>
          if SkipWhitespace c then Scan_loop c (skipped @ [token]) ts1
          else ((True, None, skipped), ts1)
      | (Fail err, ts1) \<Rightarrow> ((False, Some err, skipped), ts1)
      | (NoTok, ts1) \<Rightarrow>
     (case get_comment c ts1 of
        (Tok token, ts2) \<Rightarrow>
          if SkipComments c then Scan_loop c (skipped @ [token]) ts2
          else ((True, None, skipped), ts2)
      | (Fail err, ts2) \<Rightarrow> ((False, Some err, skipped), ts2)
      | (NoTok, ts2) \<Rightarrow>
     (case get_quoted c ts2 of
        (Tok token, ts3) \<Rightarrow> ((True, None, skipped), ts3)
      | (Fail err, ts3) \<Rightarrow> ((False, Some err, skipped), ts3)
      | (NoTok, ts3) \<Rightarrow>
     (case get_ident c ts3 of
        (Tok token, ts4) \<Rightarrow> ((True, None, skipped), ts4)
      | (Fail err, ts4) \<Rightarrow> ((False, Some err, skipped), ts4)
      | (NoTok, ts4) \<Rightarrow>
     (case get_number c ts4 of
        (Tok token, ts5) \<Rightarrow> ((True, None, skipped), ts5)
      | (Fail err, ts5) \<Rightarrow> ((False, Some err, skipped), ts5)
      | (NoTok, ts5) \<Rightarrow>
     (case get_symbol c ts5 of
        (Tok token, ts6) \<Rightarrow> ((True, None, skipped), ts6)
      | (Fail err, ts6) \<Rightarrow> ((False, Some err, skipped), ts6)
      | (NoTok, ts6) \<Rightarrow> ((False, None, skipped), ts6)))))))"
  by pat_completeness auto
termination
proof (relation "measure (\<lambda>(c, skipped, ts). length (reader ts))", goal_cases)
  case 1
  show ?case by simp
next
  case (2 c skipped ts x1 ts1 token)
  from 2(1) [symmetric] 2(2) have "get_whitespace c (update_pos ts) = (Tok token, ts1)"
    by simp
  then obtain pre where "reader (update_pos ts) = pre @ reader ts1" "pre \<noteq> []"
    unfolding get_whitespace_def by (rule get_general_cases) blast
  then show ?case by (simp add: update_pos_def)
next
  case (3 c skipped ts x1 ts1 x2 ts2 token)
  from 3(1) [symmetric] 3(2) have "get_whitespace c (update_pos ts) = (NoTok, ts1)"
    by simp
  then obtain pre where "reader (update_pos ts) = pre @ reader ts1" "pre = []"
    unfolding get_whitespace_def by (rule get_general_cases) blast
  moreover from 3(3) [symmetric] 3(4) have "get_comment c ts1 = (Tok token, ts2)"
    by simp
  then obtain pre2 where "reader ts1 = pre2 @ reader ts2" "pre2 \<noteq> []"
    by (rule get_comment_cases) blast
  ultimately show ?case by (simp add: update_pos_def)
qed

declare Scan_loop.simps [simp del]

definition Scan :: "config \<Rightarrow> TokenScanner \<Rightarrow> bool \<times> TokenScanner" where
  "Scan c ts =
     (case Scan_loop c [] ts of
        ((ok, err, skipped), ts1) \<Rightarrow> (ok, ts1\<lparr>last_err := err\<rparr>))"

definition Scan_skipped :: "config \<Rightarrow> TokenScanner \<Rightarrow> Token list" where
  "Scan_skipped c ts = snd (snd (fst (Scan_loop c [] ts)))"

section \<open>Initialisation and the default predicates\<close>

text \<open>
  Go's \<open>unicode\<close> package is not part of the repository. Its classes are exact here on
  ASCII, where they are fixed by the Unicode general categories, and are taken from the
  parameter \<open>U\<close> for every other rune.
\<close>

record unicode_tables =
  tbl_IsSpace :: "rune \<Rightarrow> bool"
  tbl_IsLetter :: "rune \<Rightarrow> bool"
  tbl_IsDigit :: "rune \<Rightarrow> bool"
  tbl_IsPunct :: "rune \<Rightarrow> bool"
  tbl_IsSymbol :: "rune \<Rightarrow> bool"
  tbl_IsMark :: "rune \<Rightarrow> bool"

definition ascii :: "rune \<Rightarrow> bool" where
  "ascii ch = (0 \<le> ch \<and> ch < 128)"

definition unicode_IsSpace :: "unicode_tables \<Rightarrow> rune \<Rightarrow> bool" where
  "unicode_IsSpace U ch =
     (if ascii ch then (9 \<le> ch \<and> ch \<le> 13) \<or> ch = 32 else tbl_IsSpace U ch)"

definition unicode_IsLetter :: "unicode_tables \<Rightarrow> rune \<Rightarrow> bool" where
  "unicode_IsLetter U ch =
     (if ascii ch then (65 \<le> ch \<and> ch \<le> 90) \<or> (97 \<le> ch \<and> ch \<le> 122)
      else tbl_IsLetter U ch)"

definition unicode_IsDigit :: "unicode_tables \<Rightarrow> rune \<Rightarrow> bool" where
  "unicode_IsDigit U ch = (if ascii ch then 48 \<le> ch \<and> ch \<le> 57 else tbl_IsDigit U ch)"

definition unicode_IsPunct :: "unicode_tables \<Rightarrow> rune \<Rightarrow> bool" where
  "unicode_IsPunct U ch =
     (if ascii ch
      then (33 \<le> ch \<and> ch \<le> 35) \<or> (37 \<le> ch \<and> ch \<le> 42) \<or> (44 \<le> ch \<and> ch \<le> 47) \<or>
           ch = 58 \<or> ch = 59 \<or> ch = 63 \<or> ch = 64 \<or> (91 \<le> ch \<and> ch \<le> 93) \<or>
           ch = 95 \<or> ch = 123 \<or> ch = 125
      else tbl_IsPunct U ch)"

definition unicode_IsSymbol :: "unicode_tables \<Rightarrow> rune \<Rightarrow> bool" where
  "unicode_IsSymbol U ch =
     (if ascii ch
      then ch = 36 \<or> ch = 43 \<or> (60 \<le> ch \<and> ch \<le> 62) \<or> ch = 94 \<or> ch = 96 \<or>
           ch = 124 \<or> ch = 126
      else tbl_IsSymbol U ch)"

definition unicode_IsMark :: "unicode_tables \<Rightarrow> rune \<Rightarrow> bool" where
  "unicode_IsMark U ch = (if ascii ch then False else tbl_IsMark U ch)"

text \<open>
  The predicates that \<open>Init\<close> of textparser.go stores in the fields of the same names. They
  take what the scanner passes: the rune, and for \<open>IsIdentRune\<close> its index in the token.
  (classes.go declares \<open>IsSymbolRune\<close> with two more arguments, for a scanner that is not
  among the sources: \<open>IsSymbolRune_indexed\<close> below.)
\<close>

definition IsEscapeRune_default :: "rune \<Rightarrow> bool" where
  "IsEscapeRune_default ch = (if ch = 92 then True else False)"

definition IsQuoteRune_default :: "rune \<Rightarrow> bool \<times> rune" where
  "IsQuoteRune_default ch =
     (if ch = 0x22 then (True, 0x22)
      else if ch = 0x27 then (True, 0x27)
      else if ch = 0x60 then (True, 0x60)
      else (False, 0))"

definition IsQuoteRuneFancy :: "rune \<Rightarrow> bool \<times> rune" where
  "IsQuoteRuneFancy ch =
     (if ch = 0x22 then (True, 0x22)
      else if ch = 0x27 then (True, 0x27)
      else if ch = 0x60 then (True, 0x60)
      else if ch = 0x201C then (True, 0x201D)
      else if ch = 0x2018 then (True, 0x2019)
      else if ch = 0x2039 then (True, 0x203A)
      else if ch = 0xAB then (True, 0xBB)
      else (False, 0))"

definition IsSymbolRune_default :: "unicode_tables \<Rightarrow> rune \<Rightarrow> bool" where
  "IsSymbolRune_default U ch =
     (if fst (IsQuoteRune_default ch) then False
      else if unicode_IsSymbol U ch then True
      else if unicode_IsPunct U ch then True
      else False)"

definition IsIdentRune_default :: "unicode_tables \<Rightarrow> rune \<Rightarrow> nat \<Rightarrow> bool" where
  "IsIdentRune_default U ch i =
     (if unicode_IsLetter U ch then True
      else if ch = 95 then True
      else if unicode_IsPunct U ch then False
      else if 0 < i \<and> unicode_IsDigit U ch then True
      else if unicode_IsMark U ch then True
      else False)"

text \<open>\<open>Init\<close>: the configuration it installs and the state it leaves.\<close>

definition Init_config :: "unicode_tables \<Rightarrow> config" where
  "Init_config U =
     \<lparr>IsIdentRune = IsIdentRune_default U,
      IsSpaceRune = unicode_IsSpace U,
      IsQuoteRune = IsQuoteRune_default,
      IsEscapeRune = IsEscapeRune_default,
      IsSymbolRune = IsSymbolRune_default U,
      IsPunctRune = unicode_IsPunct U,
      IsDigitRune = unicode_IsDigit U,
      eol = 10,
      SkipWhitespace = True,
      SkipComments = True\<rparr>"

definition Init :: "(rune \<times> nat) list \<Rightarrow> TokenScanner" where
  "Init r =
     \<lparr>reader = r, last_rune = None,
      pos = \<lparr>Filename = [], Offset = 0, Line = 1, Column = 1\<rparr>,
      last_err = None, last_byte_len = 0, last_line_addition = 0, last_col = 1,
      LastToken = None\<rparr>"

text \<open>An ASCII string as the reader delivers it: one rune of one byte per character.\<close>

definition ascii_input :: "string \<Rightarrow> (rune \<times> nat) list" where
  "ascii_input s = map (\<lambda>ch. (of_char ch, 1)) s"

definition ascii_runes :: "string \<Rightarrow> rune list" where
  "ascii_runes s = map of_char s"

section \<open>Properties of one scan step\<close>

text \<open>
  One pass over the six classifiers in the order of \<open>Scan\<close>, up to the first that does not
  decline: the body of the loop, restated for the proofs (\<open>Scan_loop_classify\<close> below).
\<close>

definition classify :: "config \<Rightarrow> TokenScanner \<Rightarrow> ret \<times> TokenScanner" where
  "classify c ts =
     (case get_whitespace c ts of
        (NoTok, ts1) \<Rightarrow>
          (case get_comment c ts1 of
             (NoTok, ts2) \<Rightarrow>
               (case get_quoted c ts2 of
                  (NoTok, ts3) \<Rightarrow>
                    (case get_ident c ts3 of
                       (NoTok, ts4) \<Rightarrow>
                         (case get_number c ts4 of
                            (NoTok, ts5) \<Rightarrow> get_symbol c ts5
                          | (r, ts5) \<Rightarrow> (r, ts5))
                     | (r, ts4) \<Rightarrow> (r, ts4))
                | (r, ts3) \<Rightarrow> (r, ts3))
           | (r, ts2) \<Rightarrow> (r, ts2))
      | (r, ts1) \<Rightarrow> (r, ts1))"

text \<open>A token that \<open>Scan\<close> discards instead of returning.\<close>

definition skips :: "config \<Rightarrow> Token \<Rightarrow> bool" where
  "skips c t = (if Type t = TokenTypeWhitespace then SkipWhitespace c
                else if Type t = TokenTypeComment then SkipComments c else False)"

text \<open>
  The end-of-line rune is none of the runes that the classifiers count as a column without
  looking at it: an opening quote, and the \<open>.\<close> and \<open>-\<close> of a number.
\<close>

definition plain_eol :: "config \<Rightarrow> bool" where
  "plain_eol c = (if fst (IsQuoteRune c (eol c)) then False else eol c \<noteq> 46 \<and> eol c \<noteq> 45)"

lemma classify_cases:
  assumes "classify c ts = (r, ts')"
  obtains pre where
    "reader ts = pre @ reader ts'" "pos ts' = pos ts"
    "r = NoTok \<Longrightarrow> pre = [] \<and> LastToken ts' = LastToken ts \<and>
        last_byte_len ts' = last_byte_len ts \<and> last_col ts' = last_col ts \<and>
        last_line_addition ts' = last_line_addition ts"
    "\<And>e. r = Fail e \<Longrightarrow> reader ts' = [] \<and> LastToken ts' = LastToken ts"
    "\<And>t. r = Tok t \<Longrightarrow> pre \<noteq> [] \<and> LastToken ts' = Some t \<and>
        Text t \<noteq> [] \<and> NumChars t = length (Text t) \<and> FirstRune t = hd (Text t)"
    "\<And>t. r = Tok t \<Longrightarrow> \<not> block_open (reader ts) \<Longrightarrow> last_byte_len ts = 0 \<Longrightarrow>
        NumBytes t = bytes pre \<and> last_byte_len ts' = bytes pre"
    "\<And>t. r = Tok t \<Longrightarrow> \<not> block_open (reader ts) \<Longrightarrow> plain_eol c \<Longrightarrow>
        last_line_addition ts' = last_line_addition ts + eols c pre"
proof -
  obtain r1 ts1 where w: "get_whitespace c ts = (r1, ts1)" by (cases "get_whitespace c ts")
  from w obtain pre1 where
    p1: "reader ts = pre1 @ reader ts1" "pos ts1 = pos ts"
        "last_line_addition ts1 = last_line_addition ts + eols c pre1"
        "r1 = NoTok \<Longrightarrow> pre1 = [] \<and> LastToken ts1 = LastToken ts \<and>
           last_byte_len ts1 = last_byte_len ts \<and> last_col ts1 = last_col ts"
        "\<And>e. r1 = Fail e \<Longrightarrow> reader ts1 = [] \<and> LastToken ts1 = LastToken ts"
        "\<And>t. r1 = Tok t \<Longrightarrow> pre1 \<noteq> [] \<and> LastToken ts1 = Some t \<and> last_byte_len ts1 = bytes pre1 \<and>
           t = \<lparr>Text = map fst pre1, NumBytes = bytes pre1, NumChars = length pre1,
             FirstRune = fst (hd pre1), Type = TokenTypeWhitespace\<rparr>"
    unfolding get_whitespace_def by (rule get_general_cases) blast
  show thesis
  proof (cases "r1 = NoTok")
    case False
    with w assms have "r = r1" "ts' = ts1"
      by (cases r1; simp add: classify_def)+
    with p1 False show thesis
      by (intro that [of pre1]) (auto simp: hd_map)
  next
    case n1: True
    note s1 = p1(4) [OF n1]
    have rd1: "reader ts1 = reader ts" using p1(1) s1 by simp
    obtain r2 ts2 where cm: "get_comment c ts1 = (r2, ts2)" by (cases "get_comment c ts1")
    from cm obtain pre2 where
      p2: "reader ts1 = pre2 @ reader ts2" "pos ts2 = pos ts1"
          "r2 = NoTok \<Longrightarrow> pre2 = [] \<and> LastToken ts2 = LastToken ts1 \<and>
             last_byte_len ts2 = last_byte_len ts1 \<and> last_col ts2 = last_col ts1 \<and>
             last_line_addition ts2 = last_line_addition ts1"
          "\<And>e. r2 = Fail e \<Longrightarrow> e = EOF \<and> reader ts2 = [] \<and> LastToken ts2 = LastToken ts1"
          "\<And>t. r2 = Tok t \<Longrightarrow> pre2 \<noteq> [] \<and> LastToken ts2 = Some t \<and> Text t = map fst pre2 \<and>
             NumChars t = length pre2 \<and> FirstRune t = 47 \<and> fst (hd pre2) = 47 \<and>
             Type t = TokenTypeComment \<and> NumBytes t = last_byte_len ts2"
          "\<And>t. r2 = Tok t \<Longrightarrow> \<not> block_open (reader ts1) \<Longrightarrow>
             last_byte_len ts2 = last_byte_len ts1 + bytes pre2 \<and>
             last_line_addition ts2 = last_line_addition ts1 + eols c pre2"
      by (rule get_comment_cases) blast
    show thesis
    proof (cases "r2 = NoTok")
      case False
      with w n1 cm assms have "r = r2" "ts' = ts2"
        by (cases r2; simp add: classify_def)+
      with p2 False rd1 p1(2) s1 p1(3) show thesis
        by (intro that [of pre2]) (auto simp: hd_map)
    next
      case n2: True
      note s2 = p2(3) [OF n2]
      have rd2: "reader ts2 = reader ts" using p2(1) s2 rd1 by simp
      obtain r3 ts3 where qu: "get_quoted c ts2 = (r3, ts3)" by (cases "get_quoted c ts2")
      from qu obtain pre3 where
        p3: "reader ts2 = pre3 @ reader ts3" "pos ts3 = pos ts2"
            "r3 = NoTok \<Longrightarrow> pre3 = [] \<and> LastToken ts3 = LastToken ts2 \<and>
               last_byte_len ts3 = last_byte_len ts2 \<and> last_col ts3 = last_col ts2 \<and>
               last_line_addition ts3 = last_line_addition ts2"
            "\<And>e. r3 = Fail e \<Longrightarrow> reader ts3 = [] \<and> LastToken ts3 = LastToken ts2"
            "\<And>t. r3 = Tok t \<Longrightarrow> pre3 \<noteq> [] \<and> LastToken ts3 = Some t \<and>
               last_byte_len ts3 = last_byte_len ts2 + bytes pre3 \<and> NumBytes t = last_byte_len ts3 \<and>
               last_line_addition ts3 = last_line_addition ts2 + eols c (tl pre3) \<and>
               fst (IsQuoteRune c (fst (hd pre3))) \<and>
               Text t \<noteq> [] \<and> NumChars t = length (Text t) \<and> FirstRune t = hd (Text t) \<and>
               FirstRune t = fst (hd pre3) \<and> Type t = TokenTypeString"
        by (rule get_quoted_cases) blast
      show thesis
      proof (cases "r3 = NoTok")
        case False
        with w n1 cm n2 qu assms have res: "r = r3" "ts' = ts3"
          by (cases r3; simp add: classify_def)+
        have ln: "eols c pre3 = eols c (tl pre3)" if "plain_eol c" "r3 = Tok t" for t
          using p3(5) [OF that(2)] that(1) by (cases pre3) (auto simp: plain_eol_def split: if_splits)
        show thesis
        proof (rule that [of pre3])
          fix t assume t: "r = Tok t"
          show "pre3 \<noteq> [] \<and> LastToken ts' = Some t \<and>
            Text t \<noteq> [] \<and> NumChars t = length (Text t) \<and> FirstRune t = hd (Text t)"
            using p3(5) t res by simp
          show "NumBytes t = bytes pre3 \<and> last_byte_len ts' = bytes pre3" if "last_byte_len ts = 0"
            using p3(5) t res s1 s2 that by simp
          show "last_line_addition ts' = last_line_addition ts + eols c pre3" if "plain_eol c"
            using p3(5) t res s1 s2 p1(3) ln [OF that] by simp
        qed (use res False p3 p2(2) p1(2) rd2 s2 s1 in auto)
      next
        case n3: True
        note s3 = p3(3) [OF n3]
        have rd3: "reader ts3 = reader ts" using p3(1) s3 rd2 by simp
        obtain r4 ts4 where idn: "get_ident c ts3 = (r4, ts4)" by (cases "get_ident c ts3")
        from idn obtain pre4 where
          p4: "reader ts3 = pre4 @ reader ts4" "pos ts4 = pos ts3"
              "last_line_addition ts4 = last_line_addition ts3 + eols c pre4"
              "r4 = NoTok \<Longrightarrow> pre4 = [] \<and> LastToken ts4 = LastToken ts3 \<and>
                 last_byte_len ts4 = last_byte_len ts3 \<and> last_col ts4 = last_col ts3"
              "\<And>e. r4 = Fail e \<Longrightarrow> reader ts4 = [] \<and> LastToken ts4 = LastToken ts3"
              "\<And>t. r4 = Tok t \<Longrightarrow> pre4 \<noteq> [] \<and> LastToken ts4 = Some t \<and> last_byte_len ts4 = bytes pre4 \<and>
                 t = \<lparr>Text = map fst pre4, NumBytes = bytes pre4, NumChars = length pre4,
                   FirstRune = fst (hd pre4), Type = TokenTypeIdent\<rparr>"
          by (rule get_ident_cases) blast
        show thesis
        proof (cases "r4 = NoTok")
          case False
          with w n1 cm n2 qu n3 idn assms have res: "r = r4" "ts' = ts4"
            by (cases r4; simp add: classify_def)+
          with p4 False rd3 p3(2) p2(2) p1(2) s3 s2 s1 p1(3) show thesis
            by (intro that [of pre4]) (auto simp: hd_map)
        next
          case n4: True
          note s4 = p4(4) [OF n4]
          have rd4: "reader ts4 = reader ts" using p4(1) s4 rd3 by simp
          have l4: "last_line_addition ts4 = last_line_addition ts"
            using p4(3) s4 s3 s2 s1 p1(3) by simp
          obtain r5 ts5 where nm: "get_number c ts4 = (r5, ts5)" by (cases "get_number c ts4")
          from nm obtain pre5 where
            p5: "reader ts4 = pre5 @ reader ts5" "pos ts5 = pos ts4"
                "eol c \<noteq> 46 \<and> eol c \<noteq> 45 \<Longrightarrow>
                   last_line_addition ts5 = last_line_addition ts4 + eols c pre5"
                "r5 = NoTok \<Longrightarrow> pre5 = [] \<and> LastToken ts5 = LastToken ts4 \<and>
                   last_byte_len ts5 = last_byte_len ts4 \<and> last_col ts5 = last_col ts4 \<and>
                   last_line_addition ts5 = last_line_addition ts4"
                "\<And>e. r5 = Fail e \<Longrightarrow> reader ts5 = [] \<and> LastToken ts5 = LastToken ts4"
                "\<And>t. r5 = Tok t \<Longrightarrow> pre5 \<noteq> [] \<and> LastToken ts5 = Some t \<and>
                   last_byte_len ts5 = bytes pre5 \<and>
                   Text t = map fst pre5 \<and> NumBytes t = bytes pre5 \<and> NumChars t = length pre5 \<and>
                   FirstRune t = fst (hd pre5) \<and> (Type t = TokenTypeInt \<or> Type t = TokenTypeFloat)"
            by (rule get_number_cases) blast
          show thesis
          proof (cases "r5 = NoTok")
            case False
            with w n1 cm n2 qu n3 idn n4 nm assms have res: "r = r5" "ts' = ts5"
              by (cases r5; simp add: classify_def)+
            have pe: "eol c \<noteq> 46 \<and> eol c \<noteq> 45" if "plain_eol c"
              using that by (simp add: plain_eol_def split: if_splits)
            show thesis
            proof (rule that [of pre5])
              fix t assume t: "r = Tok t"
              show "pre5 \<noteq> [] \<and> LastToken ts' = Some t \<and>
                Text t \<noteq> [] \<and> NumChars t = length (Text t) \<and> FirstRune t = hd (Text t)"
                using p5(6) t res by (simp add: hd_map)
              show "NumBytes t = bytes pre5 \<and> last_byte_len ts' = bytes pre5"
                using p5(6) t res by simp
              show "last_line_addition ts' = last_line_addition ts + eols c pre5" if "plain_eol c"
                using p5(3) [OF pe [OF that]] res l4 by simp
            qed (use res False p5 p4(2) p3(2) p2(2) p1(2) rd4 s4 s3 s2 s1 in auto)
          next
            case n5: True
            note s5 = p5(4) [OF n5]
            have rd5: "reader ts5 = reader ts" using p5(1) s5 rd4 by simp
            from w n1 cm n2 qu n3 idn n4 nm n5 assms have sy: "get_symbol c ts5 = (r, ts')"
              by (simp add: classify_def)
            from sy obtain pre6 where
              p6: "reader ts5 = pre6 @ reader ts'" "pos ts' = pos ts5"
                  "last_line_addition ts' = last_line_addition ts5 + eols c pre6"
                  "r = NoTok \<Longrightarrow> pre6 = [] \<and> LastToken ts' = LastToken ts5 \<and>
                     last_byte_len ts' = last_byte_len ts5 \<and> last_col ts' = last_col ts5"
                  "\<And>e. r = Fail e \<Longrightarrow> reader ts' = [] \<and> LastToken ts' = LastToken ts5"
                  "\<And>t. r = Tok t \<Longrightarrow> pre6 \<noteq> [] \<and> LastToken ts' = Some t \<and>
                     last_byte_len ts' = bytes pre6 \<and>
                     t = \<lparr>Text = map fst pre6, NumBytes = bytes pre6, NumChars = length pre6,
                       FirstRune = fst (hd pre6), Type = TokenTypeSymbol\<rparr>"
              unfolding get_symbol_def by (rule get_general_cases) blast
            from p6 rd5 p5(2) p4(2) p3(2) p2(2) p1(2) s5 s4 s3 s2 s1 l4 show thesis
              by (intro that [of pre6]) (auto simp: hd_map)
          qed
        qed
      qed
    qed
  qed
qed

lemma get_whitespace_Type:
  assumes "get_whitespace c ts = (Tok t, ts')"
  shows "Type t = TokenTypeWhitespace"
  using assms [unfolded get_whitespace_def]
proof (rule get_general_cases)
  fix pre
  assume "\<And>t'. Tok t = Tok t' \<Longrightarrow> pre \<noteq> [] \<and> LastToken ts' = Some t' \<and> last_byte_len ts' = bytes pre \<and>
        t' = \<lparr>Text = map fst pre, NumBytes = bytes pre, NumChars = length pre,
             FirstRune = fst (hd pre), Type = TokenTypeWhitespace\<rparr>"
  from this [OF refl] show ?thesis by simp
qed

lemma get_symbol_Type:
  assumes "get_symbol c ts = (Tok t, ts')"
  shows "Type t = TokenTypeSymbol"
  using assms [unfolded get_symbol_def]
proof (rule get_general_cases)
  fix pre
  assume "\<And>t'. Tok t = Tok t' \<Longrightarrow> pre \<noteq> [] \<and> LastToken ts' = Some t' \<and> last_byte_len ts' = bytes pre \<and>
        t' = \<lparr>Text = map fst pre, NumBytes = bytes pre, NumChars = length pre,
             FirstRune = fst (hd pre), Type = TokenTypeSymbol\<rparr>"
  from this [OF refl] show ?thesis by simp
qed

lemma get_ident_Type:
  assumes "get_ident c ts = (Tok t, ts')"
  shows "Type t = TokenTypeIdent"
  using assms
proof (rule get_ident_cases)
  fix pre
  assume "\<And>t'. Tok t = Tok t' \<Longrightarrow> pre \<noteq> [] \<and> LastToken ts' = Some t' \<and> last_byte_len ts' = bytes pre \<and>
        t' = \<lparr>Text = map fst pre, NumBytes = bytes pre, NumChars = length pre,
             FirstRune = fst (hd pre), Type = TokenTypeIdent\<rparr>"
  from this [OF refl] show ?thesis by simp
qed

lemma get_comment_Type:
  assumes "get_comment c ts = (Tok t, ts')"
  shows "Type t = TokenTypeComment"
  using assms
proof (rule get_comment_cases)
  fix pre
  assume "\<And>t'. Tok t = Tok t' \<Longrightarrow> pre \<noteq> [] \<and> LastToken ts' = Some t' \<and> Text t' = map fst pre \<and>
        NumChars t' = length pre \<and> FirstRune t' = 47 \<and> fst (hd pre) = 47 \<and>
        Type t' = TokenTypeComment \<and> NumBytes t' = last_byte_len ts'"
  from this [OF refl] show ?thesis by simp
qed

lemma get_quoted_Type:
  assumes "get_quoted c ts = (Tok t, ts')"
  shows "Type t = TokenTypeString"
  using assms
proof (rule get_quoted_cases)
  fix pre
  assume "\<And>t'. Tok t = Tok t' \<Longrightarrow> pre \<noteq> [] \<and> LastToken ts' = Some t' \<and>
        last_byte_len ts' = last_byte_len ts + bytes pre \<and> NumBytes t' = last_byte_len ts' \<and>
        last_line_addition ts' = last_line_addition ts + eols c (tl pre) \<and>
        fst (IsQuoteRune c (fst (hd pre))) \<and>
        Text t' \<noteq> [] \<and> NumChars t' = length (Text t') \<and> FirstRune t' = hd (Text t') \<and>
        FirstRune t' = fst (hd pre) \<and> Type t' = TokenTypeString"
  from this [OF refl] show ?thesis by simp
qed

lemma get_number_Type:
  assumes "get_number c ts = (Tok t, ts')"
  shows "Type t = TokenTypeInt \<or> Type t = TokenTypeFloat"
  using assms
proof (rule get_number_cases)
  fix pre
  assume "\<And>t'. Tok t = Tok t' \<Longrightarrow> pre \<noteq> [] \<and> LastToken ts' = Some t' \<and> last_byte_len ts' = bytes pre \<and>
        Text t' = map fst pre \<and> NumBytes t' = bytes pre \<and> NumChars t' = length pre \<and>
        FirstRune t' = fst (hd pre) \<and> (Type t' = TokenTypeInt \<or> Type t' = TokenTypeFloat)"
  from this [OF refl] show ?thesis by blast
qed

lemma skips_simps:
  "Type t = TokenTypeWhitespace \<Longrightarrow> skips c t = SkipWhitespace c"
  "Type t = TokenTypeComment \<Longrightarrow> skips c t = SkipComments c"
  "Type t = TokenTypeString \<Longrightarrow> skips c t = False"
  "Type t = TokenTypeIdent \<Longrightarrow> skips c t = False"
  "Type t = TokenTypeInt \<or> Type t = TokenTypeFloat \<Longrightarrow> skips c t = False"
  "Type t = TokenTypeSymbol \<Longrightarrow> skips c t = False"
  by (auto simp: skips_def)

lemma Scan_loop_classify:
  "Scan_loop c skipped ts =
     (case classify c (update_pos ts) of
        (Tok t, ts1) \<Rightarrow>
          if skips c t then Scan_loop c (skipped @ [t]) ts1 else ((True, None, skipped), ts1)
      | (Fail err, ts1) \<Rightarrow> ((False, Some err, skipped), ts1)
      | (NoTok, ts1) \<Rightarrow> ((False, None, skipped), ts1))"

proof (cases "get_whitespace c (update_pos ts)")
  case (Pair r1 ts1)
  show ?thesis
  proof (cases r1)
    case (Tok t)
    with Pair have f1: "get_whitespace c (update_pos ts) = (Tok t, ts1)" by simp
    have sk: "skips c t = SkipWhitespace c"
      using get_whitespace_Type [OF f1] by (simp add: skips_def)
    show ?thesis
      by (subst Scan_loop.simps) ((simp only: f1 classify_def prod.case ret.case), (simp add: sk)?)
  next
    case (Fail e)
    with Pair have f1: "get_whitespace c (update_pos ts) = (Fail e, ts1)" by simp
    show ?thesis
      by (subst Scan_loop.simps) ((simp only: f1 classify_def prod.case ret.case), (simp)?)
  next
    case NoTok
    with Pair have f1: "get_whitespace c (update_pos ts) = (NoTok, ts1)" by simp
    show ?thesis
    proof (cases "get_comment c ts1")
      case (Pair r2 ts2)
      show ?thesis
      proof (cases r2)
        case (Tok t)
        with Pair have f2: "get_comment c ts1 = (Tok t, ts2)" by simp
        have sk: "skips c t = SkipComments c"
          using get_comment_Type [OF f2] by (simp add: skips_def)
        show ?thesis
          by (subst Scan_loop.simps) ((simp only: f1 f2 classify_def prod.case ret.case), (simp add: sk)?)
      next
        case (Fail e)
        with Pair have f2: "get_comment c ts1 = (Fail e, ts2)" by simp
        show ?thesis
          by (subst Scan_loop.simps) ((simp only: f1 f2 classify_def prod.case ret.case), (simp)?)
      next
        case NoTok
        with Pair have f2: "get_comment c ts1 = (NoTok, ts2)" by simp
        show ?thesis
        proof (cases "get_quoted c ts2")
          case (Pair r3 ts3)
          show ?thesis
          proof (cases r3)
            case (Tok t)
            with Pair have f3: "get_quoted c ts2 = (Tok t, ts3)" by simp
            have sk: "skips c t = False"
              using get_quoted_Type [OF f3] by (simp add: skips_def)
            show ?thesis
              by (subst Scan_loop.simps) ((simp only: f1 f2 f3 classify_def prod.case ret.case), (simp add: sk)?)
          next
            case (Fail e)
            with Pair have f3: "get_quoted c ts2 = (Fail e, ts3)" by simp
            show ?thesis
              by (subst Scan_loop.simps) ((simp only: f1 f2 f3 classify_def prod.case ret.case), (simp)?)
          next
            case NoTok
            with Pair have f3: "get_quoted c ts2 = (NoTok, ts3)" by simp
            show ?thesis
            proof (cases "get_ident c ts3")
              case (Pair r4 ts4)
              show ?thesis
              proof (cases r4)
                case (Tok t)
                with Pair have f4: "get_ident c ts3 = (Tok t, ts4)" by simp
                have sk: "skips c t = False"
                  using get_ident_Type [OF f4] by (simp add: skips_def)
                show ?thesis
                  by (subst Scan_loop.simps) ((simp only: f1 f2 f3 f4 classify_def prod.case ret.case), (simp add: sk)?)
              next
                case (Fail e)
                with Pair have f4: "get_ident c ts3 = (Fail e, ts4)" by simp
                show ?thesis
                  by (subst Scan_loop.simps) ((simp only: f1 f2 f3 f4 classify_def prod.case ret.case), (simp)?)
              next
                case NoTok
                with Pair have f4: "get_ident c ts3 = (NoTok, ts4)" by simp
                show ?thesis
                proof (cases "get_number c ts4")
                  case (Pair r5 ts5)
                  show ?thesis
                  proof (cases r5)
                    case (Tok t)
                    with Pair have f5: "get_number c ts4 = (Tok t, ts5)" by simp
                    have sk: "skips c t = False"
                      using get_number_Type [OF f5] by (auto simp: skips_def)
                    show ?thesis
                      by (subst Scan_loop.simps) ((simp only: f1 f2 f3 f4 f5 classify_def prod.case ret.case), (simp add: sk)?)
                  next
                    case (Fail e)
                    with Pair have f5: "get_number c ts4 = (Fail e, ts5)" by simp
                    show ?thesis
                      by (subst Scan_loop.simps) ((simp only: f1 f2 f3 f4 f5 classify_def prod.case ret.case), (simp)?)
                  next
                    case NoTok
                    with Pair have f5: "get_number c ts4 = (NoTok, ts5)" by simp
                    show ?thesis
                    proof (cases "get_symbol c ts5")
                      case (Pair r6 ts6)
                      show ?thesis
                      proof (cases r6)
                        case (Tok t)
                        with Pair have f6: "get_symbol c ts5 = (Tok t, ts6)" by simp
                        have sk: "skips c t = False"
                          using get_symbol_Type [OF f6] by (simp add: skips_def)
                        show ?thesis
                          by (subst Scan_loop.simps) ((simp only: f1 f2 f3 f4 f5 f6 classify_def prod.case ret.case), (simp add: sk)?)
                      next
                        case (Fail e)
                        with Pair have f6: "get_symbol c ts5 = (Fail e, ts6)" by simp
                        show ?thesis
                          by (subst Scan_loop.simps) ((simp only: f1 f2 f3 f4 f5 f6 classify_def prod.case ret.case), (simp)?)
                      next
                        case NoTok
                        with Pair have f6: "get_symbol c ts5 = (NoTok, ts6)" by simp
                        show ?thesis
                          by (subst Scan_loop.simps) ((simp only: f1 f2 f3 f4 f5 f6 classify_def prod.case ret.case), (simp)?)
                      qed
                    qed
                  qed
                qed
              qed
            qed
          qed
        qed
      qed
    qed
  qed
qed

text \<open>No \<open>/*\<close> anywhere in the input.\<close>

fun no_block_open :: "(rune \<times> nat) list \<Rightarrow> bool" where
  "no_block_open [] = True"
| "no_block_open (u # us) = (if block_open (u # us) then False else no_block_open us)"

lemma no_block_open_append: "no_block_open (pre @ us) \<Longrightarrow> no_block_open us"
  by (induction pre) (auto split: if_splits)

lemma no_block_open_head: "no_block_open us \<Longrightarrow> \<not> block_open us"
  by (cases us) (auto simp: block_open_def split: if_splits)

lemma Scan_loop_cases:
  assumes "Scan_loop c skipped ts = ((ok, e, skipped'), ts')"
  obtains pre where
    "reader ts = pre @ reader ts'"
    "ok \<Longrightarrow> e = None \<and> pre \<noteq> [] \<and>
       (\<exists>t. LastToken ts' = Some t \<and> \<not> skips c t \<and> Text t \<noteq> [] \<and>
            NumChars t = length (Text t) \<and> FirstRune t = hd (Text t))"
    "\<not> ok \<Longrightarrow> e \<noteq> None \<Longrightarrow> reader ts' = []"
    "ok \<Longrightarrow> no_block_open (reader ts) \<Longrightarrow>
       (\<exists>t. LastToken ts' = Some t \<and> last_byte_len ts' = NumBytes t \<and>
            Offset (pos ts') + NumBytes t + bytes (reader ts') =
            Offset (pos ts) + last_byte_len ts + bytes (reader ts))"
    "ok \<Longrightarrow> no_block_open (reader ts) \<Longrightarrow> plain_eol c \<Longrightarrow>
       Line (pos ts') + last_line_addition ts' + eols c (reader ts') =
       Line (pos ts) + last_line_addition ts + eols c (reader ts)"
  using assms
proof (induction "length (reader ts)" arbitrary: skipped ts thesis rule: less_induct)
  case less
  let ?ts0 = "update_pos ts"
  have u: "reader ?ts0 = reader ts" "last_byte_len ?ts0 = 0" "last_line_addition ?ts0 = 0"
    "Offset (pos ?ts0) = Offset (pos ts) + last_byte_len ts"
    "Line (pos ?ts0) = Line (pos ts) + last_line_addition ts"
    by (simp_all add: update_pos_def)
  obtain r1 ts1 where cl: "classify c ?ts0 = (r1, ts1)" by (cases "classify c ?ts0")
  from cl obtain pre1 where
    p1: "reader ?ts0 = pre1 @ reader ts1" "pos ts1 = pos ?ts0"
        "\<And>e. r1 = Fail e \<Longrightarrow> reader ts1 = [] \<and> LastToken ts1 = LastToken ?ts0"
        "\<And>t. r1 = Tok t \<Longrightarrow> pre1 \<noteq> [] \<and> LastToken ts1 = Some t \<and>
           Text t \<noteq> [] \<and> NumChars t = length (Text t) \<and> FirstRune t = hd (Text t)"
        "\<And>t. r1 = Tok t \<Longrightarrow> \<not> block_open (reader ?ts0) \<Longrightarrow> last_byte_len ?ts0 = 0 \<Longrightarrow>
           NumBytes t = bytes pre1 \<and> last_byte_len ts1 = bytes pre1"
        "\<And>t. r1 = Tok t \<Longrightarrow> \<not> block_open (reader ?ts0) \<Longrightarrow> plain_eol c \<Longrightarrow>
           last_line_addition ts1 = last_line_addition ?ts0 + eols c pre1"
    by (rule classify_cases) blast
  have step: "(case r1 of
        Tok t \<Rightarrow>
          if skips c t then Scan_loop c (skipped @ [t]) ts1 else ((True, None, skipped), ts1)
      | Fail err \<Rightarrow> ((False, Some err, skipped), ts1)
      | NoTok \<Rightarrow> ((False, None, skipped), ts1)) = ((ok, e, skipped'), ts')"
    using less.prems(2) [unfolded Scan_loop_classify [of c skipped ts] cl] by simp
  show ?case
  proof (cases r1)
    case NoTok
    with step have "ok = False" "e = None" "ts' = ts1"
      by simp_all
    with p1(1) u show ?thesis
      by (intro less.prems(1) [of pre1]) simp_all
  next
    case (Fail err)
    with step have "ok = False" "e = Some err" "ts' = ts1"
      by simp_all
    with p1(1) p1(3) [OF Fail] u show ?thesis
      by (intro less.prems(1) [of pre1]) simp_all
  next
    case (Tok t)
    note T = p1(4) [OF Tok]
    show ?thesis
    proof (cases "skips c t")
      case False
      with step Tok have res: "ok = True" "e = None" "ts' = ts1"
        by simp_all
      show ?thesis
      proof (rule less.prems(1) [of pre1])
        show "reader ts = pre1 @ reader ts'" using p1(1) u res by simp
        show "e = None \<and> pre1 \<noteq> [] \<and>
           (\<exists>t. LastToken ts' = Some t \<and> \<not> skips c t \<and> Text t \<noteq> [] \<and>
            NumChars t = length (Text t) \<and> FirstRune t = hd (Text t))"
          using T res False by simp
        show "reader ts' = []" if "\<not> ok" using that res by simp
        assume nb: "no_block_open (reader ts)"
        then have nbo: "\<not> block_open (reader ?ts0)" using u by (simp add: no_block_open_head)
        from p1(5) [OF Tok nbo u(2)] T res p1(1,2) u
        show "\<exists>t. LastToken ts' = Some t \<and> last_byte_len ts' = NumBytes t \<and>
            Offset (pos ts') + NumBytes t + bytes (reader ts') =
            Offset (pos ts) + last_byte_len ts + bytes (reader ts)"
          by simp
        assume "plain_eol c"
        from p1(6) [OF Tok nbo this] res p1(1,2) u
        show "Line (pos ts') + last_line_addition ts' + eols c (reader ts') =
              Line (pos ts) + last_line_addition ts + eols c (reader ts)"
          by simp
      qed
    next
      case True
      with step Tok have rec: "Scan_loop c (skipped @ [t]) ts1 = ((ok, e, skipped'), ts')"
        by simp
      have shorter: "length (reader ts1) < length (reader ts)"
        using p1(1) T u by simp
      show ?thesis
      proof (rule less.hyps [OF shorter _ rec])
        fix pre
        assume a: "reader ts1 = pre @ reader ts'"
          "ok \<Longrightarrow> e = None \<and> pre \<noteq> [] \<and>
             (\<exists>t. LastToken ts' = Some t \<and> \<not> skips c t \<and> Text t \<noteq> [] \<and>
                NumChars t = length (Text t) \<and> FirstRune t = hd (Text t))"
          "\<not> ok \<Longrightarrow> e \<noteq> None \<Longrightarrow> reader ts' = []"
          "ok \<Longrightarrow> no_block_open (reader ts1) \<Longrightarrow>
             (\<exists>t. LastToken ts' = Some t \<and> last_byte_len ts' = NumBytes t \<and>
                Offset (pos ts') + NumBytes t + bytes (reader ts') =
                Offset (pos ts1) + last_byte_len ts1 + bytes (reader ts1))"
          "ok \<Longrightarrow> no_block_open (reader ts1) \<Longrightarrow> plain_eol c \<Longrightarrow>
             Line (pos ts') + last_line_addition ts' + eols c (reader ts') =
             Line (pos ts1) + last_line_addition ts1 + eols c (reader ts1)"
        show ?thesis
        proof (rule less.prems(1) [of "pre1 @ pre"])
          show "reader ts = (pre1 @ pre) @ reader ts'" using p1(1) u a(1) by simp
          show "e = None \<and> pre1 @ pre \<noteq> [] \<and>
             (\<exists>t. LastToken ts' = Some t \<and> \<not> skips c t \<and> Text t \<noteq> [] \<and>
                NumChars t = length (Text t) \<and> FirstRune t = hd (Text t))" if ok
            using a(2) [OF that] by simp
          show "reader ts' = []" if "\<not> ok" "e \<noteq> None" using a(3) that by simp
        next
          assume ok and nb: "no_block_open (reader ts)"
          then have nbo: "\<not> block_open (reader ?ts0)" using u by (simp add: no_block_open_head)
          have nb1: "no_block_open (reader ts1)"
            using nb p1(1) u no_block_open_append [of pre1 "reader ts1"] by simp
          from a(4) [OF \<open>ok\<close> nb1] p1(5) [OF Tok nbo u(2)] p1(1,2) u
          show "\<exists>t. LastToken ts' = Some t \<and> last_byte_len ts' = NumBytes t \<and>
              Offset (pos ts') + NumBytes t + bytes (reader ts') =
              Offset (pos ts) + last_byte_len ts + bytes (reader ts)"
            by auto
          assume pe: "plain_eol c"
          from a(5) [OF \<open>ok\<close> nb1 pe] p1(6) [OF Tok nbo pe] p1(1,2) u
          show "Line (pos ts') + last_line_addition ts' + eols c (reader ts') =
                Line (pos ts) + last_line_addition ts + eols c (reader ts)"
            by simp
        qed
      qed
    qed
  qed
qed


section \<open>Scanning a whole input\<close>

lemma Scan_progress:
  assumes "Scan c ts = (True, ts')"
  shows "length (reader ts') < length (reader ts)"
proof -
  obtain ok e sk ts1 where l: "Scan_loop c [] ts = ((ok, e, sk), ts1)"
    by (cases "Scan_loop c [] ts") auto
  with assms have ok: "ok" and ts': "ts' = ts1\<lparr>last_err := e\<rparr>"
    by (simp_all add: Scan_def)
  from l show ?thesis
  proof (rule Scan_loop_cases)
    fix pre
    assume "reader ts = pre @ reader ts1"
      and "ok \<Longrightarrow> e = None \<and> pre \<noteq> [] \<and>
       (\<exists>t. LastToken ts1 = Some t \<and> \<not> skips c t \<and> Text t \<noteq> [] \<and>
            NumChars t = length (Text t) \<and> FirstRune t = hd (Text t))"
    with ok ts' show ?thesis by simp
  qed
qed

text \<open>
  The accessors of the scanner, and the loop \<open>for p.Scan() { ... }\<close> of the tests: it returns
  the scanner as it stands after each successful \<open>Scan\<close>, and the scanner left by the
  \<open>Scan\<close> that returned false.
\<close>

definition TokenText :: "TokenScanner \<Rightarrow> rune list" where
  "TokenText ts = (case LastToken ts of None \<Rightarrow> [] | Some t \<Rightarrow> Text t)"

function Scan_all :: "config \<Rightarrow> TokenScanner \<Rightarrow> TokenScanner list \<times> TokenScanner" where
  "Scan_all c ts =
     (case Scan c ts of
        (True, ts1) \<Rightarrow> (case Scan_all c ts1 of (seen, ts2) \<Rightarrow> (ts1 # seen, ts2))
      | (False, ts1) \<Rightarrow> ([], ts1))"
  by pat_completeness auto
termination
proof (relation "measure (\<lambda>(c, ts). length (reader ts))", goal_cases)
  case 1
  show ?case by simp
next
  case (2 c ts x1 ts1)
  then have "Scan c ts = (True, ts1)" by simp
  from Scan_progress [OF this] show ?case by simp
qed

declare Scan_all.simps [simp del]

text \<open>The tokens discarded on the way, in order, the last \<open>Scan\<close> included.\<close>

function discarded_all :: "config \<Rightarrow> TokenScanner \<Rightarrow> Token list" where
  "discarded_all c ts =
     (case Scan c ts of
        (True, ts1) \<Rightarrow> Scan_skipped c ts @ discarded_all c ts1
      | (False, ts1) \<Rightarrow> Scan_skipped c ts)"
  by pat_completeness auto
termination
proof (relation "measure (\<lambda>(c, ts). length (reader ts))", goal_cases)
  case 1
  show ?case by simp
next
  case (2 c ts x1 ts1)
  then have "Scan c ts = (True, ts1)" by simp
  from Scan_progress [OF this] show ?case by simp
qed

declare discarded_all.simps [simp del]

section \<open>The claims\<close>

subsection \<open>C7: symbol tokens under the default symbol predicate\<close>

text \<open>
  The sources hold two symbol predicates. The scanner of textparser.go calls
  \<open>IsSymbolRune\<close> with the rune alone (\<open>IsSymbolRune_default\<close> above, the function its
  \<open>Init\<close> installs), and \<open>get_general\<close> keeps reading while it accepts: there \<open>+=\<close> is one
  token by design. classes.go declares \<open>IsSymbolRune(ch, i, runes)\<close>, which rejects every
  rune at an index above 0; the scanner that calls it is not among the sources. C7 speaks of
  the second predicate, so the symbol classifier is taken with the index, as the spec
  describes it.
\<close>

text \<open>
  \<open>IsSymbolRune\<close> as classes.go declares it: the rune, its index \<open>i\<close> in the token being
  built, and the runes accepted so far. It accepts nothing at an index above 0.
\<close>

definition IsSymbolRune_indexed :: "unicode_tables \<Rightarrow> rune \<Rightarrow> nat \<Rightarrow> rune list \<Rightarrow> bool" where
  "IsSymbolRune_indexed U ch i runes =
     (if 0 < i then False
      else if fst (IsQuoteRune_default ch) then False
      else if unicode_IsSymbol U ch then True
      else if unicode_IsPunct U ch then True
      else False)"

text \<open>
  Modelled from the spec: the loop of the symbol classifier that calls a predicate of three
  arguments. The scanner of textparser.go calls \<open>IsSymbolRune\<close> with the rune alone; the one that
  passes the index and the accepted runes is missing. After the spec (4.8) the classifier
  consumes the runes the symbol predicate accepts, the predicate being given the index of the
  rune in the token and the runes accepted so far, and stops at any rune that opens a quote;
  the reading, the counting and the push-back of the rejected rune are those of
  \<open>get_general\<close>.
\<close>

function get_symbol_indexed_loop ::
  "config \<Rightarrow> (rune \<Rightarrow> nat \<Rightarrow> rune list \<Rightarrow> bool) \<Rightarrow> rune list \<Rightarrow> nat \<Rightarrow> TokenScanner
     \<Rightarrow> (error + rune list \<times> nat) \<times> TokenScanner" where
  "get_symbol_indexed_loop c rune_check runes total_size ts =
     (case get_one_rune ts of
        (Inl err, ts1) \<Rightarrow>
          if err = EOF \<and> runes \<noteq> [] then (Inr (runes, total_size), ts1)
          else (Inl err, ts1)
      | (Inr (ch, sz), ts1) \<Rightarrow>
          if \<not> fst (IsQuoteRune c ch) \<and> rune_check ch (length runes) runes
          then get_symbol_indexed_loop c rune_check (runes @ [ch]) (total_size + sz)
                 (count_rune c ch ts1)
          else (case unread_rune ts1 of
                  (Some err, ts2) \<Rightarrow> (Inl err, ts2)
                | (None, ts2) \<Rightarrow> (Inr (runes, total_size), ts2)))"
  by pat_completeness auto
termination
  by (relation "measure (\<lambda>(c, rune_check, runes, total_size, ts). length (reader ts))")
     (auto simp: get_one_rune_def ReadRune_def count_rune_def split: list.splits)

declare get_symbol_indexed_loop.simps [simp del]

text \<open>
  Modelled from the spec: the symbol classifier over that loop, which is missing with it; the
  token is built as \<open>get_general\<close> builds it.
\<close>

definition get_symbol_indexed ::
  "config \<Rightarrow> (rune \<Rightarrow> nat \<Rightarrow> rune list \<Rightarrow> bool) \<Rightarrow> TokenScanner \<Rightarrow> ret \<times> TokenScanner" where
  "get_symbol_indexed c rune_check ts =
     (case get_symbol_indexed_loop c rune_check [] 0 ts of
        (Inl err, ts1) \<Rightarrow> (Fail err, ts1)
      | (Inr (runes, total_size), ts1) \<Rightarrow>
          if runes = [] then (NoTok, ts1)
          else
            (let token = \<lparr>Text = runes, NumBytes = total_size, NumChars = length runes,
                           FirstRune = hd runes, Type = TokenTypeSymbol\<rparr>
             in (Tok token, ts1\<lparr>last_byte_len := total_size, LastToken := Some token\<rparr>)))"

text \<open>
  Modelled from the spec: the scan step of the scanner that calls the symbol predicate with
  the index, which is missing. It is the loop of \<open>Scan\<close> of textparser.go, with its six
  classifiers in their order (spec 4.9), and with the symbol classifier above in the place of
  \<open>get_symbol\<close>.
\<close>

function Scan_loop_indexed ::
  "config \<Rightarrow> (rune \<Rightarrow> nat \<Rightarrow> rune list \<Rightarrow> bool) \<Rightarrow> TokenScanner
     \<Rightarrow> (bool \<times> error option) \<times> TokenScanner" where
  "Scan_loop_indexed c rune_check ts =
     (case get_whitespace c (update_pos ts) of
        (Tok token, ts1) \<Rightarrow>
          if SkipWhitespace c then Scan_loop_indexed c rune_check ts1
          else ((True, None), ts1)
      | (Fail err, ts1) \<Rightarrow> ((False, Some err), ts1)
      | (NoTok, ts1) \<Rightarrow>
     (case get_comment c ts1 of
        (Tok token, ts2) \<Rightarrow>
          if SkipComments c then Scan_loop_indexed c rune_check ts2
          else ((True, None), ts2)
      | (Fail err, ts2) \<Rightarrow> ((False, Some err), ts2)
      | (NoTok, ts2) \<Rightarrow>
     (case get_quoted c ts2 of
        (Tok token, ts3) \<Rightarrow> ((True, None), ts3)
      | (Fail err, ts3) \<Rightarrow> ((False, Some err), ts3)
      | (NoTok, ts3) \<Rightarrow>
     (case get_ident c ts3 of
        (Tok token, ts4) \<Rightarrow> ((True, None), ts4)
      | (Fail err, ts4) \<Rightarrow> ((False, Some err), ts4)
      | (NoTok, ts4) \<Rightarrow>
     (case get_number c ts4 of
        (Tok token, ts5) \<Rightarrow> ((True, None), ts5)
      | (Fail err, ts5) \<Rightarrow> ((False, Some err), ts5)
      | (NoTok, ts5) \<Rightarrow>
     (case get_symbol_indexed c rune_check ts5 of
        (Tok token, ts6) \<Rightarrow> ((True, None), ts6)
      | (Fail err, ts6) \<Rightarrow> ((False, Some err), ts6)
      | (NoTok, ts6) \<Rightarrow> ((False, None), ts6)))))))"
  by pat_completeness auto
termination
proof (relation "measure (\<lambda>(c, rune_check, ts). length (reader ts))", goal_cases)
  case 1
  show ?case by simp
next
  case (2 c rune_check ts x1 ts1 token)
  from 2(1) [symmetric] 2(2) have "get_whitespace c (update_pos ts) = (Tok token, ts1)"
    by simp
  then obtain pre where "reader (update_pos ts) = pre @ reader ts1" "pre \<noteq> []"
    unfolding get_whitespace_def by (rule get_general_cases) blast
  then show ?case by (simp add: update_pos_def)
next
  case (3 c rune_check ts x1 ts1 x2 ts2 token)
  from 3(1) [symmetric] 3(2) have "get_whitespace c (update_pos ts) = (NoTok, ts1)"
    by simp
  then obtain pre where "reader (update_pos ts) = pre @ reader ts1" "pre = []"
    unfolding get_whitespace_def by (rule get_general_cases) blast
  moreover from 3(3) [symmetric] 3(4) have "get_comment c ts1 = (Tok token, ts2)"
    by simp
  then obtain pre2 where "reader ts1 = pre2 @ reader ts2" "pre2 \<noteq> []"
    by (rule get_comment_cases) blast
  ultimately show ?case by (simp add: update_pos_def)
qed

declare Scan_loop_indexed.simps [simp del]

text \<open>Modelled from the spec: \<open>Scan\<close> over that loop, which is missing with it.\<close>

definition Scan_indexed ::
  "config \<Rightarrow> (rune \<Rightarrow> nat \<Rightarrow> rune list \<Rightarrow> bool) \<Rightarrow> TokenScanner \<Rightarrow> bool \<times> TokenScanner" where
  "Scan_indexed c rune_check ts =
     (case Scan_loop_indexed c rune_check ts of
        ((ok, err), ts1) \<Rightarrow> (ok, ts1\<lparr>last_err := err\<rparr>))"

text \<open>
  A loop \<open>for p.Scan() { ... }\<close> of at most \<open>n\<close> scan steps: the scanner as it stands
  after each successful step.
\<close>

fun scan_n :: "(TokenScanner \<Rightarrow> bool \<times> TokenScanner) \<Rightarrow> nat \<Rightarrow> TokenScanner \<Rightarrow> TokenScanner list" where
  "scan_n scan 0 ts = []"
| "scan_n scan (Suc n) ts =
     (case scan ts of
        (True, ts1) \<Rightarrow> ts1 # scan_n scan n ts1
      | (False, ts1) \<Rightarrow> [])"

lemma get_symbol_indexed_loop_accepts:
  "get_symbol_indexed_loop c rune_check runes total_size ts = (Inr (rs, n), ts') \<Longrightarrow>
     \<exists>pre. reader ts = pre @ reader ts' \<and> rs = runes @ map fst pre \<and> n = total_size + bytes pre \<and>
           (\<forall>r \<in> set (map fst pre). \<not> fst (IsQuoteRune c r)) \<and>
           (pre \<noteq> [] \<longrightarrow> rune_check (fst (hd pre)) (length runes) runes) \<and>
           (1 < length pre \<longrightarrow>
              rune_check (fst (pre ! 1)) (Suc (length runes)) (runes @ [fst (hd pre)]))"
proof (induction c rune_check runes total_size ts rule: get_symbol_indexed_loop.induct)
  case (1 c rune_check runes total_size ts)
  show ?case
  proof (cases "reader ts")
    case Nil
    with "1.prems" show ?thesis
      by (auto simp: get_symbol_indexed_loop.simps [of c rune_check runes total_size ts]
                     get_one_rune_Nil split: if_splits)
  next
    case (Cons u us)
    obtain ch sz where u: "u = (ch, sz)" by (cases u)
    let ?ts1 = "ts\<lparr>reader := us, last_rune := Some (ch, sz)\<rparr>"
    have g: "get_one_rune ts = (Inr (ch, sz), ?ts1)"
      using Cons u by (simp add: get_one_rune_Cons)
    show ?thesis
    proof (cases "\<not> fst (IsQuoteRune c ch) \<and> rune_check ch (length runes) runes")
      case True
      with "1.prems" g
      have rec: "get_symbol_indexed_loop c rune_check (runes @ [ch]) (total_size + sz)
                   (count_rune c ch ?ts1) = (Inr (rs, n), ts')"
        by (simp add: get_symbol_indexed_loop.simps [of c rune_check runes total_size ts])
      from "1.IH" [OF g [symmetric] refl refl True rec] obtain pre where
        pre: "reader (count_rune c ch ?ts1) = pre @ reader ts'" "rs = (runes @ [ch]) @ map fst pre"
             "n = total_size + sz + bytes pre"
             "\<forall>r \<in> set (map fst pre). \<not> fst (IsQuoteRune c r)"
             "pre \<noteq> [] \<longrightarrow> rune_check (fst (hd pre)) (length (runes @ [ch])) (runes @ [ch])"
        by auto
      have "reader ts = ((ch, sz) # pre) @ reader ts'"
        using pre(1) Cons u by (simp add: count_rune_def split: if_splits)
      moreover have "rs = runes @ map fst ((ch, sz) # pre)"
        using pre(2) by simp
      moreover have "n = total_size + bytes ((ch, sz) # pre)"
        using pre(3) by simp
      moreover have "\<forall>r \<in> set (map fst ((ch, sz) # pre)). \<not> fst (IsQuoteRune c r)"
        using pre(4) True by simp
      moreover have "rune_check (fst (hd ((ch, sz) # pre))) (length runes) runes"
        using True by simp
      moreover have "1 < length ((ch, sz) # pre) \<longrightarrow>
          rune_check (fst (((ch, sz) # pre) ! 1)) (Suc (length runes))
            (runes @ [fst (hd ((ch, sz) # pre))])"
        using pre(5) by (cases pre) simp_all
      ultimately show ?thesis by blast
    next
      case False
      with "1.prems" g have "rs = runes" "n = total_size"
          "ts' = ts\<lparr>reader := (ch, sz) # us, last_rune := None\<rparr>"
        by (auto simp: get_symbol_indexed_loop.simps [of c rune_check runes total_size ts]
                       unread_rune_def)
      then show ?thesis using Cons u by simp
    qed
  qed
qed

lemma get_symbol_indexed_cases:
  assumes "get_symbol_indexed c rune_check ts = (Tok t, ts')"
  obtains pre where
    "reader ts = pre @ reader ts'" "pre \<noteq> []"
    "t = \<lparr>Text = map fst pre, NumBytes = bytes pre, NumChars = length pre,
          FirstRune = fst (hd pre), Type = TokenTypeSymbol\<rparr>"
    "\<forall>r \<in> set (map fst pre). \<not> fst (IsQuoteRune c r)"
    "rune_check (fst (hd pre)) 0 []"
    "1 < length pre \<longrightarrow> rune_check (fst (pre ! 1)) 1 [fst (hd pre)]"
proof -
  obtain r1 ts1 where l: "get_symbol_indexed_loop c rune_check [] 0 ts = (r1, ts1)"
    by (cases "get_symbol_indexed_loop c rune_check [] 0 ts")
  from assms l obtain rs n where r1: "r1 = Inr (rs, n)" and ne: "rs \<noteq> []"
    by (cases r1) (auto simp: get_symbol_indexed_def split: if_splits)
  from assms l r1 ne have t: "t = \<lparr>Text = rs, NumBytes = n, NumChars = length rs,
          FirstRune = hd rs, Type = TokenTypeSymbol\<rparr>" and ts': "reader ts' = reader ts1"
    by (auto simp: get_symbol_indexed_def Let_def)
  from get_symbol_indexed_loop_accepts [OF l [unfolded r1]] obtain pre where
    pre: "reader ts = pre @ reader ts1" "rs = map fst pre" "n = bytes pre"
         "\<forall>r \<in> set (map fst pre). \<not> fst (IsQuoteRune c r)"
         "pre \<noteq> [] \<longrightarrow> rune_check (fst (hd pre)) 0 []"
         "1 < length pre \<longrightarrow> rune_check (fst (pre ! 1)) 1 [fst (hd pre)]"
    by auto
  from pre(2) ne have pne: "pre \<noteq> []" by auto
  show thesis
  proof (rule that [of pre])
    show "t = \<lparr>Text = map fst pre, NumBytes = bytes pre, NumChars = length pre,
          FirstRune = fst (hd pre), Type = TokenTypeSymbol\<rparr>"
      using t pre(2,3) pne by (simp add: hd_map)
  qed (use pre pne ts' in simp_all)
qed

text \<open>
  In the scanner of textparser.go as well, \<open>get_symbol\<close> takes no rune that opens a quote:
  the quote predicate is the exception it hands to \<open>get_general\<close>.
\<close>

lemma get_general_loop_accepts:
  "get_general_loop c rune_check exceptions runes total_size ts = (Inr (rs, n), ts') \<Longrightarrow>
     \<exists>acc. rs = runes @ acc \<and> (\<forall>r \<in> set acc. \<not> list_ex (\<lambda>e. e r) exceptions \<and> rune_check r)"
proof (induction c rune_check exceptions runes total_size ts rule: get_general_loop.induct)
  case (1 c rune_check exceptions runes total_size ts)
  show ?case
  proof (cases "reader ts")
    case Nil
    with "1.prems" show ?thesis
      by (auto simp: get_general_loop.simps [of c rune_check exceptions runes total_size ts]
                     get_one_rune_Nil split: if_splits)
  next
    case (Cons u us)
    obtain ch sz where u: "u = (ch, sz)" by (cases u)
    let ?ts1 = "ts\<lparr>reader := us, last_rune := Some (ch, sz)\<rparr>"
    have g: "get_one_rune ts = (Inr (ch, sz), ?ts1)"
      using Cons u by (simp add: get_one_rune_Cons)
    show ?thesis
    proof (cases "\<not> list_ex (\<lambda>e. e ch) exceptions \<and> rune_check ch")
      case True
      with "1.prems" g
      have rec: "get_general_loop c rune_check exceptions (runes @ [ch]) (total_size + sz)
                   (count_rune c ch ?ts1) = (Inr (rs, n), ts')"
        by (simp add: get_general_loop.simps [of c rune_check exceptions runes total_size ts])
      from "1.IH" [OF g [symmetric] refl refl True rec] obtain acc where
        acc: "rs = (runes @ [ch]) @ acc"
             "\<forall>r \<in> set acc. \<not> list_ex (\<lambda>e. e r) exceptions \<and> rune_check r"
        by auto
      have "rs = runes @ (ch # acc)" using acc(1) by simp
      moreover have "\<forall>r \<in> set (ch # acc). \<not> list_ex (\<lambda>e. e r) exceptions \<and> rune_check r"
        using acc(2) True by simp
      ultimately show ?thesis by blast
    next
      case False
      with "1.prems" g have "rs = runes"
        by (auto simp: get_general_loop.simps [of c rune_check exceptions runes total_size ts]
                       unread_rune_def)
      then show ?thesis by simp
    qed
  qed
qed

lemma get_symbol_no_quote:
  assumes "get_symbol c ts = (Tok t, ts')"
  shows "\<forall>r \<in> set (Text t). \<not> fst (IsQuoteRune c r) \<and> IsSymbolRune c r"
proof -
  let ?ex = "[\<lambda>ch. fst (IsQuoteRune c ch)]"
  obtain r1 ts1 where l: "get_general_loop c (IsSymbolRune c) ?ex [] 0 ts = (r1, ts1)"
    by (cases "get_general_loop c (IsSymbolRune c) ?ex [] 0 ts")
  from assms l obtain rs n where r1: "r1 = Inr (rs, n)" and ne: "rs \<noteq> []"
    by (cases r1) (auto simp: get_symbol_def get_general_def split: if_splits)
  from assms l r1 ne have t: "Text t = rs"
    by (auto simp: get_symbol_def get_general_def Let_def)
  from get_general_loop_accepts [OF l [unfolded r1]] t show ?thesis by simp
qed

text \<open>
  Claim C7: under the default symbol predicate \<open>IsSymbolRune\<close> of classes.go, a Symbol token
  holds exactly one rune, the first of the input, so that \<open>foo += 5\<close> comes out as
  \<open>foo\<close>, \<open>+\<close>, \<open>=\<close> and \<open>5\<close> (as \<open>TestSeparateSymbols\<close> expects); and whatever
  the symbol predicate, no rune that the quote predicate accepts as an opening quote is in a
  Symbol token, of the classifier with the index and of \<open>get_symbol\<close> of textparser.go
  alike. (With the predicate of \<open>TestSomeSeparateSymbols\<close>, which also accepts a \<open>=\<close> at
  index 1 after a \<open>+\<close>, \<open>foo += 5 })\<close> comes out as that test expects.)
\<close>

theorem C7_symbol_is_one_rune:
  assumes "get_symbol_indexed c rune_check ts = (Tok t, ts')"
  shows "Type t = TokenTypeSymbol \<and>
         (\<forall>r \<in> set (Text t). \<not> fst (IsQuoteRune c r)) \<and>
         (rune_check = IsSymbolRune_indexed U \<longrightarrow>
            length (Text t) = 1 \<and> NumChars t = 1 \<and>
            (\<exists>sz. reader ts = (FirstRune t, sz) # reader ts' \<and> NumBytes t = sz)) \<and>
         (get_symbol c ts = (Tok t0, ts0) \<longrightarrow> (\<forall>r \<in> set (Text t0). \<not> fst (IsQuoteRune c r))) \<and>
         (\<forall>U. map TokenText
                 (scan_n (Scan_indexed (Init_config U) (IsSymbolRune_indexed U)) 8
                    (Init (ascii_input ''foo += 5''))) =
               [ascii_runes ''foo'', ascii_runes ''+'', ascii_runes ''='', ascii_runes ''5''] \<and>
               map TokenText
                 (scan_n (Scan_indexed (Init_config U)
                            (\<lambda>ch i runes. if ch = 61 \<and> i = 1 \<and> runes ! 0 = 43 then True
                                          else IsSymbolRune_indexed U ch i runes)) 8
                    (Init (ascii_input ''foo += 5 })''))) =
               [ascii_runes ''foo'', ascii_runes ''+='', ascii_runes ''5'', ascii_runes ''}'',
                ascii_runes '')''])"
proof (intro conjI impI allI)
  fix U
  show "map TokenText
                 (scan_n (Scan_indexed (Init_config U) (IsSymbolRune_indexed U)) 8
                    (Init (ascii_input ''foo += 5''))) =
               [ascii_runes ''foo'', ascii_runes ''+'', ascii_runes ''='', ascii_runes ''5'']"
    by code_simp
  show "map TokenText
                 (scan_n (Scan_indexed (Init_config U)
                            (\<lambda>ch i runes. if ch = 61 \<and> i = 1 \<and> runes ! 0 = 43 then True
                                          else IsSymbolRune_indexed U ch i runes)) 8
                    (Init (ascii_input ''foo += 5 })''))) =
               [ascii_runes ''foo'', ascii_runes ''+='', ascii_runes ''5'', ascii_runes ''}'',
                ascii_runes '')'']"
    by code_simp
next
  assume "get_symbol c ts = (Tok t0, ts0)"
  from get_symbol_no_quote [OF this]
  show "\<forall>r \<in> set (Text t0). \<not> fst (IsQuoteRune c r)" by simp
next
  show "Type t = TokenTypeSymbol"
    using assms by (rule get_symbol_indexed_cases) simp
  show "\<forall>r \<in> set (Text t). \<not> fst (IsQuoteRune c r)"
    using assms by (rule get_symbol_indexed_cases) simp
next
  assume d: "rune_check = IsSymbolRune_indexed U"
  from assms obtain pre where
    pre: "reader ts = pre @ reader ts'" "pre \<noteq> []"
    "t = \<lparr>Text = map fst pre, NumBytes = bytes pre, NumChars = length pre,
          FirstRune = fst (hd pre), Type = TokenTypeSymbol\<rparr>"
    "1 < length pre \<longrightarrow> rune_check (fst (pre ! 1)) 1 [fst (hd pre)]"
    by (rule get_symbol_indexed_cases) blast
  from pre(4) d have "\<not> 1 < length pre" by (simp add: IsSymbolRune_indexed_def)
  with pre(2) obtain u where u: "pre = [u]" by (cases pre) auto
  obtain ch sz where "u = (ch, sz)" by (cases u)
  with u pre(1,3)
  show "length (Text t) = 1" "NumChars t = 1"
    "\<exists>sz. reader ts = (FirstRune t, sz) # reader ts' \<and> NumBytes t = sz"
    by simp_all
qed

text \<open>
  Witness for C7, on \<open>+= 5\<close>: the classifier with the index produces \<open>+\<close>, and
  \<open>get_symbol\<close> of textparser.go, with its predicate of one argument, \<open>+=\<close>.
\<close>

theorem C7_symbol_is_one_rune_witness:
  "\<forall>U. let c = Init_config U; ts = update_pos (Init (ascii_input ''+= 5''));
            r = get_symbol_indexed c (IsSymbolRune_indexed U) ts;
            r0 = get_symbol c ts
        in (case (r, r0) of
              ((Tok t, ts'), (Tok t0, ts0)) \<Rightarrow>
                 Text t = ascii_runes ''+'' \<and> Text t0 = ascii_runes ''+='' \<and>
                 Type t = TokenTypeSymbol \<and> length (Text t) = 1 \<and> NumChars t = 1 \<and>
                 (\<forall>r \<in> set (Text t). \<not> fst (IsQuoteRune c r)) \<and>
                 (\<forall>r \<in> set (Text t0). \<not> fst (IsQuoteRune c r))
            | _ \<Rightarrow> False)"
proof (intro allI)
  fix U
  define c where "c = Init_config U"
  define ts where "ts = update_pos (Init (ascii_input ''+= 5''))"
  define t where "t = \<lparr>Text = ascii_runes ''+'', NumBytes = 1, NumChars = 1, FirstRune = 43,
                        Type = TokenTypeSymbol\<rparr>"
  define t0 where "t0 = \<lparr>Text = ascii_runes ''+='', NumBytes = 2, NumChars = 2, FirstRune = 43,
                        Type = TokenTypeSymbol\<rparr>"
  have r: "get_symbol_indexed c (IsSymbolRune_indexed U) ts =
             (Tok t, snd (get_symbol_indexed c (IsSymbolRune_indexed U) ts))"
    unfolding c_def ts_def t_def by code_simp
  have r0: "get_symbol c ts = (Tok t0, snd (get_symbol c ts))"
    unfolding c_def ts_def t0_def by code_simp
  from C7_symbol_is_one_rune [OF r, of U t0 "snd (get_symbol c ts)"] r0
  have "Type t = TokenTypeSymbol \<and> length (Text t) = 1 \<and> NumChars t = 1 \<and>
        (\<forall>r \<in> set (Text t). \<not> fst (IsQuoteRune c r)) \<and>
        (\<forall>r \<in> set (Text t0). \<not> fst (IsQuoteRune c r))"
    by simp
  moreover have "Text t = ascii_runes ''+''" "Text t0 = ascii_runes ''+=''"
    by (simp_all add: t_def t0_def)
  ultimately show "let c = Init_config U; ts = update_pos (Init (ascii_input ''+= 5''));
            r = get_symbol_indexed c (IsSymbolRune_indexed U) ts;
            r0 = get_symbol c ts
        in (case (r, r0) of
              ((Tok t, ts'), (Tok t0, ts0)) \<Rightarrow>
                 Text t = ascii_runes ''+'' \<and> Text t0 = ascii_runes ''+='' \<and>
                 Type t = TokenTypeSymbol \<and> length (Text t) = 1 \<and> NumChars t = 1 \<and>
                 (\<forall>r \<in> set (Text t). \<not> fst (IsQuoteRune c r)) \<and>
                 (\<forall>r \<in> set (Text t0). \<not> fst (IsQuoteRune c r))
            | _ \<Rightarrow> False)"
    unfolding c_def [symmetric] ts_def [symmetric] Let_def
    by (subst r, subst r0) simp
qed

subsection \<open>C1: the byte lengths of the tokens add up to the input\<close>

text \<open>
  C1 says that the byte lengths (\<open>NumBytes\<close>) of the surfaced tokens and of the discarded
  whitespace and comment tokens add up to the byte length of the input. A block comment
  breaks it: the rune read after each \<open>*\<close> is not added to \<open>last_byte_len\<close>, from which
  the token takes its \<open>NumBytes\<close>. On the 11 bytes of \<open>a /* x */ b\<close> the scan reaches the
  end of the input and the lengths add up to 10; the comment of 7 bytes has \<open>NumBytes\<close> 6.
\<close>

theorem C1_block_comment_bytes_lost:
  "(let r = ascii_input ''a /* x */ b'';
        run = Scan_all (Init_config U) (Init r);
        surfaced = List.map_filter LastToken (fst run);
        discarded = discarded_all (Init_config U) (Init r)
    in (map Text surfaced, map NumBytes surfaced,
        map Text discarded, map NumBytes discarded,
        sum_list (map NumBytes surfaced) + sum_list (map NumBytes discarded),
        bytes r, reader (snd run), last_err (snd run))) =
   ([ascii_runes ''a'', ascii_runes ''b''], [1, 1],
    [ascii_runes '' '', ascii_runes ''/* x */'', ascii_runes '' ''], [1, 6, 1],
    10, 11, [], Some EOF)"
  by code_simp

subsection \<open>C10: the counts a token carries\<close>

text \<open>
  C10, in three parts: whichever classifier produces a token, \<open>NumChars\<close> is the number of
  runes of \<open>Text\<close> and \<open>FirstRune\<close> is its first rune; the \<open>NumBytes\<close> of a String token is
  what was pending in \<open>last_byte_len\<close> (nothing, inside \<open>Scan\<close>, which resets it in
  \<open>update_pos\<close>) plus the bytes of all the input the classifier consumed, escape runes
  included; and so \<open>NumBytes\<close> can exceed the UTF-8 length of \<open>Text\<close>: the 6 bytes of
  \<open>"a\"b"\<close> give a String token of \<open>NumBytes\<close> 6 whose text \<open>"a"b"\<close> has 5 bytes.
\<close>

text \<open>The number of bytes \<open>WriteRune\<close> writes for a rune (an invalid one is written as U+FFFD).\<close>

definition RuneLen :: "rune \<Rightarrow> nat" where
  "RuneLen r =
     (if r < 0 then 3
      else if r < 0x80 then 1
      else if r < 0x800 then 2
      else if 0xD800 \<le> r \<and> r \<le> 0xDFFF then 3
      else if r < 0x10000 then 3
      else if r \<le> 0x10FFFF then 4
      else 3)"

definition text_bytes :: "rune list \<Rightarrow> nat" where
  "text_bytes rs = sum_list (map RuneLen rs)"

lemma classifier_token_shape:
  assumes "f \<in> {get_whitespace, get_comment, get_quoted, get_ident, get_number, get_symbol}"
    and "f c ts = (Tok t, ts')"
  shows "Text t \<noteq> [] \<and> NumChars t = length (Text t) \<and> FirstRune t = hd (Text t)"
proof -
  have gen: ?thesis if "get_general c ty chk ex ts = (Tok t, ts')" for ty chk ex
    using that
  proof (rule get_general_cases)
    fix pre
    assume "\<And>t'. Tok t = Tok t' \<Longrightarrow> pre \<noteq> [] \<and> LastToken ts' = Some t' \<and> last_byte_len ts' = bytes pre \<and>
        t' = \<lparr>Text = map fst pre, NumBytes = bytes pre, NumChars = length pre,
             FirstRune = fst (hd pre), Type = ty\<rparr>"
    from this [OF refl] show ?thesis by (simp add: hd_map)
  qed
  consider "f = get_whitespace" | "f = get_comment" | "f = get_quoted" | "f = get_ident"
    | "f = get_number" | "f = get_symbol"
    using assms(1) by blast
  then show ?thesis
  proof cases
    case 1
    with assms(2) show ?thesis by (intro gen) (simp add: get_whitespace_def)
  next
    case 6
    with assms(2) show ?thesis by (intro gen) (simp add: get_symbol_def)
  next
    case 2
    with assms(2) have "get_comment c ts = (Tok t, ts')" by simp
    then show ?thesis
    proof (rule get_comment_cases)
      fix pre
      assume "\<And>t'. Tok t = Tok t' \<Longrightarrow> pre \<noteq> [] \<and> LastToken ts' = Some t' \<and> Text t' = map fst pre \<and>
        NumChars t' = length pre \<and> FirstRune t' = 47 \<and> fst (hd pre) = 47 \<and>
        Type t' = TokenTypeComment \<and> NumBytes t' = last_byte_len ts'"
      from this [OF refl] show ?thesis by (simp add: hd_map)
    qed
  next
    case 3
    with assms(2) have "get_quoted c ts = (Tok t, ts')" by simp
    then show ?thesis
    proof (rule get_quoted_cases)
      fix pre
      assume "\<And>t'. Tok t = Tok t' \<Longrightarrow> pre \<noteq> [] \<and> LastToken ts' = Some t' \<and>
        last_byte_len ts' = last_byte_len ts + bytes pre \<and> NumBytes t' = last_byte_len ts' \<and>
        last_line_addition ts' = last_line_addition ts + eols c (tl pre) \<and>
        fst (IsQuoteRune c (fst (hd pre))) \<and>
        Text t' \<noteq> [] \<and> NumChars t' = length (Text t') \<and> FirstRune t' = hd (Text t') \<and>
        FirstRune t' = fst (hd pre) \<and> Type t' = TokenTypeString"
      from this [OF refl] show ?thesis by simp
    qed
  next
    case 4
    with assms(2) have "get_ident c ts = (Tok t, ts')" by simp
    then show ?thesis
    proof (rule get_ident_cases)
      fix pre
      assume "\<And>t'. Tok t = Tok t' \<Longrightarrow> pre \<noteq> [] \<and> LastToken ts' = Some t' \<and> last_byte_len ts' = bytes pre \<and>
        t' = \<lparr>Text = map fst pre, NumBytes = bytes pre, NumChars = length pre,
             FirstRune = fst (hd pre), Type = TokenTypeIdent\<rparr>"
      from this [OF refl] show ?thesis by (simp add: hd_map)
    qed
  next
    case 5
    with assms(2) have "get_number c ts = (Tok t, ts')" by simp
    then show ?thesis
    proof (rule get_number_cases)
      fix pre
      assume "\<And>t'. Tok t = Tok t' \<Longrightarrow> pre \<noteq> [] \<and> LastToken ts' = Some t' \<and> last_byte_len ts' = bytes pre \<and>
        Text t' = map fst pre \<and> NumBytes t' = bytes pre \<and> NumChars t' = length pre \<and>
        FirstRune t' = fst (hd pre) \<and> (Type t' = TokenTypeInt \<or> Type t' = TokenTypeFloat)"
      from this [OF refl] show ?thesis by (simp add: hd_map)
    qed
  qed
qed

lemma get_quoted_bytes:
  assumes "get_quoted c ts = (Tok t, ts')"
  shows "\<exists>pre. reader ts = pre @ reader ts' \<and> NumBytes t = last_byte_len ts + bytes pre"
  using assms
proof (rule get_quoted_cases)
  fix pre
  assume "reader ts = pre @ reader ts'"
    and "\<And>t'. Tok t = Tok t' \<Longrightarrow> pre \<noteq> [] \<and> LastToken ts' = Some t' \<and>
        last_byte_len ts' = last_byte_len ts + bytes pre \<and> NumBytes t' = last_byte_len ts' \<and>
        last_line_addition ts' = last_line_addition ts + eols c (tl pre) \<and>
        fst (IsQuoteRune c (fst (hd pre))) \<and>
        Text t' \<noteq> [] \<and> NumChars t' = length (Text t') \<and> FirstRune t' = hd (Text t') \<and>
        FirstRune t' = fst (hd pre) \<and> Type t' = TokenTypeString"
  from this(1) this(2) [OF refl] show ?thesis by auto
qed

definition escaped_example :: "(rune \<times> nat) list" where
  "escaped_example = ascii_input ([CHR 0x22] @ ''a'' @ [CHR 0x5C, CHR 0x22] @ ''b'' @ [CHR 0x22])"

text \<open>
  Claim C10: every classifier's token has \<open>NumChars = length Text\<close> and
  \<open>FirstRune = hd Text\<close>; a String token's \<open>NumBytes\<close> counts every byte consumed, and it
  can exceed the byte length of \<open>Text\<close>.
\<close>

theorem C10_token_counts:
  assumes "f \<in> {get_whitespace, get_comment, get_quoted, get_ident, get_number, get_symbol}"
    and "f c ts = (Tok t, ts')"
  shows "Text t \<noteq> [] \<and> NumChars t = length (Text t) \<and> FirstRune t = hd (Text t) \<and>
         (f = get_quoted \<longrightarrow>
            (\<exists>pre. reader ts = pre @ reader ts' \<and> NumBytes t = last_byte_len ts + bytes pre)) \<and>
         (\<forall>U. map (\<lambda>s. map_option (\<lambda>t. (Type t, NumBytes t, text_bytes (Text t))) (LastToken s))
                 (fst (Scan_all (Init_config U) (Init escaped_example))) =
              [Some (TokenTypeString, 6, 5)])"
proof (intro conjI impI allI)
  fix U
  show "map (\<lambda>s. map_option (\<lambda>t. (Type t, NumBytes t, text_bytes (Text t))) (LastToken s))
                 (fst (Scan_all (Init_config U) (Init escaped_example))) =
              [Some (TokenTypeString, 6, 5)]"
    by code_simp
next
  assume "f = get_quoted"
  with assms(2) show "\<exists>pre. reader ts = pre @ reader ts' \<and> NumBytes t = last_byte_len ts + bytes pre"
    by (intro get_quoted_bytes) simp
qed (use classifier_token_shape [OF assms] in simp_all)

text \<open>Witness for C10: the quoted-string classifier on \<open>"a\"b"\<close>.\<close>

theorem C10_token_counts_witness:
  "\<forall>U. (let c = Init_config U; ts = Init escaped_example;
             t = \<lparr>Text = ascii_runes ([CHR 0x22] @ ''a'' @ [CHR 0x22] @ ''b'' @ [CHR 0x22]),
                  NumBytes = 6, NumChars = 5, FirstRune = 34, Type = TokenTypeString\<rparr>
         in get_quoted c ts = (Tok t, snd (get_quoted c ts)) \<and>
            Text t \<noteq> [] \<and> NumChars t = length (Text t) \<and> FirstRune t = hd (Text t) \<and>
            (\<exists>pre. reader ts = pre @ reader (snd (get_quoted c ts)) \<and>
                   NumBytes t = last_byte_len ts + bytes pre))"
proof (intro allI)
  fix U
  let ?c = "Init_config U" and ?ts = "Init escaped_example"
  let ?t = "\<lparr>Text = ascii_runes ([CHR 0x22] @ ''a'' @ [CHR 0x22] @ ''b'' @ [CHR 0x22]),
                  NumBytes = 6, NumChars = 5, FirstRune = 34, Type = TokenTypeString\<rparr>"
  have h: "get_quoted ?c ?ts = (Tok ?t, snd (get_quoted ?c ?ts))"
    by code_simp
  have m: "get_quoted \<in> {get_whitespace, get_comment, get_quoted, get_ident, get_number, get_symbol}"
    by simp
  from C10_token_counts [OF m h] h
  show "(let c = Init_config U; ts = Init escaped_example;
             t = \<lparr>Text = ascii_runes ([CHR 0x22] @ ''a'' @ [CHR 0x22] @ ''b'' @ [CHR 0x22]),
                  NumBytes = 6, NumChars = 5, FirstRune = 34, Type = TokenTypeString\<rparr>
         in get_quoted c ts = (Tok t, snd (get_quoted c ts)) \<and>
            Text t \<noteq> [] \<and> NumChars t = length (Text t) \<and> FirstRune t = hd (Text t) \<and>
            (\<exists>pre. reader ts = pre @ reader (snd (get_quoted c ts)) \<and>
                   NumBytes t = last_byte_len ts + bytes pre))"
    unfolding Let_def by blast
qed

subsection \<open>C8: after an error nothing more is scanned\<close>








subsection \<open>C5 and C6: the shape of a number\<close>

text \<open>
  Both claims are about what \<open>get_number\<close> accepts. They are proved for every digit
  predicate that accepts neither \<open>.\<close> (46) nor \<open>-\<close> (45), as the default \<open>unicode.IsDigit\<close>
  does not: a predicate that takes \<open>.\<close> for a digit would accept a second one as a digit.
\<close>

text \<open>
  The shape of a number, as an automaton over its runes: state 0 before anything, 1 after a
  leading \<open>-\<close>, 2 in the digits, 3 after the \<open>.\<close>, 4 in the digits after the \<open>.\<close>.
\<close>

fun number_step :: "(rune \<Rightarrow> bool) \<Rightarrow> nat option \<Rightarrow> rune \<Rightarrow> nat option" where
  "number_step dig None x = None"
| "number_step dig (Some p) x =
     (if p = 0 then (if x = 45 then Some 1 else if dig x then Some 2 else None)
      else if p = 1 then (if dig x then Some 2 else None)
      else if p = 2 then (if x = 46 then Some 3 else if dig x then Some 2 else None)
      else if p = 3 then (if dig x then Some 4 else None)
      else if p = 4 then (if dig x then Some 4 else None)
      else None)"

definition number_phase :: "(rune \<Rightarrow> bool) \<Rightarrow> rune list \<Rightarrow> nat option" where
  "number_phase dig rs = foldl (number_step dig) (Some 0) rs"

lemma number_phase_snoc:
  "number_phase dig (rs @ [x]) = number_step dig (number_phase dig rs) x"
  by (simp add: number_phase_def)

text \<open>
  The loop of \<open>get_number\<close> follows the automaton: it ends in state 0 with nothing, in state
  2 with an Int or in state 4 with a Float, and a \<open>.\<close> it leaves after an Int has no digit
  after it. In states 1 and 3 the lookahead has seen a digit, which is the next rune.
\<close>

lemma get_number_loop_phase:
  assumes "get_number_loop c runes total_size found_digits found_decimal is_float ts = (Inr (rs, n, f), ts')"
    and "number_phase (IsDigitRune c) runes = Some p"
    and "found_digits \<longleftrightarrow> 2 \<le> p" "found_decimal \<longleftrightarrow> 3 \<le> p" "is_float \<longleftrightarrow> 3 \<le> p"
    and "p = 1 \<or> p = 3 \<Longrightarrow> digit_follows c (reader ts)"
    and "\<not> IsDigitRune c 46" "\<not> IsDigitRune c 45"
  shows "((number_phase (IsDigitRune c) rs = Some 0 \<and> rs = []) \<or>
          (number_phase (IsDigitRune c) rs = Some 2 \<and> \<not> f) \<or>
          (number_phase (IsDigitRune c) rs = Some 4 \<and> f)) \<and>
         (\<forall>sz rest. reader ts' = (46, sz) # rest \<longrightarrow> rs = [] \<or> f \<or> \<not> digit_follows c rest)"
  using assms(1-6)
proof (induction "length (reader ts)" arbitrary: runes total_size found_digits found_decimal is_float ts p
         rule: less_induct)
  case less
  note nd = assms(7,8)
  have p4: "p \<le> 4"
    using less.prems(2)
  proof (cases runes rule: rev_cases)
    case Nil
    with less.prems(2) show ?thesis by (simp add: number_phase_def)
  next
    case (snoc ys y)
    with less.prems(2) show ?thesis
      by (cases "number_phase (IsDigitRune c) ys")
         (auto simp: number_phase_snoc split: if_splits)
  qed
  have p0: "runes = []" if "p = 0"
  proof (cases runes rule: rev_cases)
    case (snoc ys y)
    with less.prems(2) that show ?thesis
      by (cases "number_phase (IsDigitRune c) ys")
         (auto simp: number_phase_snoc split: if_splits)
  qed
  have pne: "runes \<noteq> []" if "p \<noteq> 0"
    using less.prems(2) that by (auto simp: number_phase_def)
  have final: ?case if "rs = runes" "f = is_float" "p \<noteq> 1" "p \<noteq> 3"
    "\<And>sz rest. reader ts' = (46, sz) # rest \<Longrightarrow> p = 0 \<or> p = 4 \<or> \<not> digit_follows c rest"
  proof -
    from p4 that(3,4) consider "p = 0" | "p = 2" | "p = 4" by linarith
    then have "(number_phase (IsDigitRune c) rs = Some 0 \<and> rs = []) \<or>
          (number_phase (IsDigitRune c) rs = Some 2 \<and> \<not> f) \<or>
          (number_phase (IsDigitRune c) rs = Some 4 \<and> f)"
      using that(1,2) less.prems(2-5) p0 by cases auto
    moreover have "rs = [] \<or> f \<or> \<not> digit_follows c rest" if "reader ts' = (46, sz) # rest" for sz rest
      using \<open>\<And>sz rest. reader ts' = (46, sz) # rest \<Longrightarrow> p = 0 \<or> p = 4 \<or> \<not> digit_follows c rest\<close> [OF that]
        p0 \<open>rs = runes\<close> \<open>f = is_float\<close> less.prems(5) by auto
    ultimately show ?thesis by blast
  qed
  show ?case
  proof (cases "reader ts")
    case Nil
    with less.prems(1) have r: "rs = runes" "f = is_float" "runes \<noteq> []" "reader ts' = []"
      by (auto simp: get_number_loop_Nil split: if_splits)
    from Nil less.prems(6) have "p \<noteq> 1" "p \<noteq> 3"
      by (auto simp: digit_follows_def)
    with r show ?thesis by (intro final) simp_all
  next
    case (Cons u us)
    obtain ch sz where u: "u = (ch, sz)" by (cases u)
    have rd: "reader ts = (ch, sz) # us" using Cons u by simp
    note step = get_number_loop_Cons [OF rd, of c runes total_size found_digits found_decimal is_float]
    from less.prems(1) have res:
      "(if ch = 46 \<and> found_digits \<and> \<not> found_decimal then
        (if digit_follows c us
         then get_number_loop c (runes @ [ch]) (total_size + sz) found_digits True True
                (ts\<lparr>reader := us, last_rune := Some (ch, sz), last_col := last_col ts + 1\<rparr>)
         else (Inr (runes, total_size, is_float), ts\<lparr>reader := (ch, sz) # us, last_rune := None\<rparr>))
      else if ch = 45 \<and> \<not> found_digits then
        (if digit_follows c us
         then get_number_loop c (runes @ [ch]) (total_size + sz) found_digits found_decimal is_float
                (ts\<lparr>reader := us, last_rune := Some (ch, sz), last_col := last_col ts + 1\<rparr>)
         else (Inr (runes, total_size, is_float), ts\<lparr>reader := (ch, sz) # us, last_rune := None\<rparr>))
      else if IsDigitRune c ch then
        get_number_loop c (runes @ [ch]) (total_size + sz) True found_decimal is_float
          (count_rune c ch (ts\<lparr>reader := us, last_rune := Some (ch, sz)\<rparr>))
      else (Inr (runes, total_size, is_float), ts\<lparr>reader := (ch, sz) # us, last_rune := None\<rparr>))
       = (Inr (rs, n, f), ts')"
      unfolding step .
    have follows: "IsDigitRune c ch" if "p = 1 \<or> p = 3"
      using less.prems(6) [OF that] rd by (simp add: digit_follows_def)
    have ch_digit: "ch \<noteq> 46 \<and> ch \<noteq> 45" if "IsDigitRune c ch"
      using that nd by auto
    let ?t2 = "ts\<lparr>reader := us, last_rune := Some (ch, sz), last_col := last_col ts + 1\<rparr>"
    let ?t3 = "count_rune c ch (ts\<lparr>reader := us, last_rune := Some (ch, sz)\<rparr>)"
    have len2: "length (reader ?t2) < length (reader ts)" using rd by simp
    have len3: "length (reader ?t3) < length (reader ts)" using rd by (simp add: count_rune_def)
    have rd3: "reader ?t3 = us" by (simp add: count_rune_def)
    show ?thesis
    proof (cases "ch = 46 \<and> found_digits \<and> \<not> found_decimal")
      case True
      then have p2: "p = 2" using less.prems(3,4) by auto
      show ?thesis
      proof (cases "digit_follows c us")
        case False
        with True res have "rs = runes" "f = is_float" "reader ts' = (ch, sz) # us" by auto
        with p2 False show ?thesis by (intro final) simp_all
      next
        case df: True
        with True res
        have rec: "get_number_loop c (runes @ [ch]) (total_size + sz) found_digits True True ?t2
                     = (Inr (rs, n, f), ts')"
          by simp
        have ph: "number_phase (IsDigitRune c) (runes @ [ch]) = Some 3"
          using less.prems(2) p2 True by (simp add: number_phase_snoc)
        show ?thesis
          by (rule less.hyps [OF len2 rec ph]) (use True df in simp_all)
      qed
    next
      case n46: False
      show ?thesis
      proof (cases "ch = 45 \<and> \<not> found_digits")
        case True
        then have plt: "p < 2" using less.prems(3) by auto
        have "p \<noteq> 1" using follows True nd by auto
        with plt have p0': "p = 0" by simp
        show ?thesis
        proof (cases "digit_follows c us")
          case False
          with True n46 res have "rs = runes" "f = is_float" "reader ts' = (ch, sz) # us"
            by (auto split: if_splits)
          with p0' show ?thesis by (intro final) simp_all
        next
          case df: True
          with True n46 res
          have rec: "get_number_loop c (runes @ [ch]) (total_size + sz) found_digits found_decimal
                       is_float ?t2 = (Inr (rs, n, f), ts')"
            by (auto split: if_splits)
          have ph: "number_phase (IsDigitRune c) (runes @ [ch]) = Some 1"
            using less.prems(2) p0' True by (simp add: number_phase_snoc)
          show ?thesis
            by (rule less.hyps [OF len2 rec ph]) (use True df less.prems(3-5) p0' in simp_all)
        qed
      next
        case n45: False
        show ?thesis
        proof (cases "IsDigitRune c ch")
          case False
          with n45 n46 res have r: "rs = runes" "f = is_float" "reader ts' = (ch, sz) # us"
            by (auto split: if_splits)
          from False follows have p13: "p \<noteq> 1" "p \<noteq> 3" by auto
          have "p = 0 \<or> p = 4" if "ch = 46"
          proof -
            from that n46 have "\<not> found_digits \<or> found_decimal" by simp
            with less.prems(3,4) p13 p4 show ?thesis by auto
          qed
          with r p13 show ?thesis by (intro final) auto
        next
          case True
          with n45 n46 res
          have rec: "get_number_loop c (runes @ [ch]) (total_size + sz) True found_decimal is_float ?t3
                       = (Inr (rs, n, f), ts')"
            by (auto split: if_splits)
          from ch_digit [OF True] have c46: "ch \<noteq> 46" "ch \<noteq> 45" by simp_all
          from p4 consider "p = 0" | "p = 1" | "p = 2" | "p = 3" | "p = 4" by linarith
          then show ?thesis
          proof cases
            case 1
            have ph: "number_phase (IsDigitRune c) (runes @ [ch]) = Some 2"
              using less.prems(2) 1 True c46 by (simp add: number_phase_snoc)
            show ?thesis
              by (rule less.hyps [OF len3 rec ph]) (use less.prems(3-5) 1 in simp_all)
          next
            case 2
            have ph: "number_phase (IsDigitRune c) (runes @ [ch]) = Some 2"
              using less.prems(2) 2 True c46 by (simp add: number_phase_snoc)
            show ?thesis
              by (rule less.hyps [OF len3 rec ph]) (use less.prems(3-5) 2 in simp_all)
          next
            case 3
            have ph: "number_phase (IsDigitRune c) (runes @ [ch]) = Some 2"
              using less.prems(2) 3 True c46 by (simp add: number_phase_snoc)
            show ?thesis
              by (rule less.hyps [OF len3 rec ph]) (use less.prems(3-5) 3 in simp_all)
          next
            case 4
            have ph: "number_phase (IsDigitRune c) (runes @ [ch]) = Some 4"
              using less.prems(2) 4 True c46 by (simp add: number_phase_snoc)
            show ?thesis
              by (rule less.hyps [OF len3 rec ph]) (use less.prems(3-5) 4 in simp_all)
          next
            case 5
            have ph: "number_phase (IsDigitRune c) (runes @ [ch]) = Some 4"
              using less.prems(2) 5 True c46 by (simp add: number_phase_snoc)
            show ?thesis
              by (rule less.hyps [OF len3 rec ph]) (use less.prems(3-5) 5 in simp_all)
          qed
        qed
      qed
    qed
  qed
qed


text \<open>What the runes are in each state of the automaton.\<close>

lemma number_phase_shape:
  "number_phase dig rs = Some p \<Longrightarrow>
     p \<le> 4 \<and> (p = 0 \<longrightarrow> rs = []) \<and> (p = 1 \<longrightarrow> rs = [45]) \<and>
     (p = 2 \<longrightarrow> (\<exists>sign ds. rs = sign @ ds \<and> (sign = [] \<or> sign = [45]) \<and> ds \<noteq> [] \<and>
                           list_all dig ds)) \<and>
     (p = 3 \<longrightarrow> (\<exists>sign ds. rs = sign @ ds @ [46] \<and> (sign = [] \<or> sign = [45]) \<and> ds \<noteq> [] \<and>
                           list_all dig ds)) \<and>
     (p = 4 \<longrightarrow> (\<exists>sign ds fs. rs = sign @ ds @ 46 # fs \<and> (sign = [] \<or> sign = [45]) \<and>
                           ds \<noteq> [] \<and> list_all dig ds \<and> fs \<noteq> [] \<and> list_all dig fs))"
proof (induction rs arbitrary: p rule: rev_induct)
  case Nil
  then show ?case by (simp add: number_phase_def)
next
  case (snoc x xs)
  from snoc.prems obtain q where q: "number_phase dig xs = Some q"
    and s: "number_step dig (Some q) x = Some p"
    by (cases "number_phase dig xs") (auto simp: number_phase_snoc)
  note IH = snoc.IH [OF q]
  from IH have "q \<le> 4" by simp
  then consider "q = 0" | "q = 1" | "q = 2" | "q = 3" | "q = 4" by linarith
  then show ?case
  proof cases
    case 1
    with IH have xs: "xs = []" by simp
    from s 1 consider "x = 45" "p = 1" | "dig x" "p = 2" by (auto split: if_splits)
    then show ?thesis
    proof cases
      case 1
      with xs show ?thesis by simp
    next
      case 2
      have "\<exists>sign ds. xs @ [x] = sign @ ds \<and> (sign = [] \<or> sign = [45]) \<and> ds \<noteq> [] \<and>
                           list_all dig ds"
        by (rule exI [of _ "[]"], rule exI [of _ "[x]"]) (simp add: xs 2)
      with 2 show ?thesis by simp
    qed
  next
    case 2
    with IH have xs: "xs = [45]" by simp
    from s 2 have p: "dig x" "p = 2" by (auto split: if_splits)
    have "\<exists>sign ds. xs @ [x] = sign @ ds \<and> (sign = [] \<or> sign = [45]) \<and> ds \<noteq> [] \<and>
                           list_all dig ds"
      by (rule exI [of _ "[45]"], rule exI [of _ "[x]"]) (simp add: xs p)
    with p show ?thesis by simp
  next
    case 3
    with IH obtain sign ds where
      d: "xs = sign @ ds" "sign = [] \<or> sign = [45]" "ds \<noteq> []" "list_all dig ds"
      by auto
    from s 3 consider "x = 46" "p = 3" | "dig x" "p = 2" by (auto split: if_splits)
    then show ?thesis
    proof cases
      case 1
      have "\<exists>sign ds. xs @ [x] = sign @ ds @ [46] \<and> (sign = [] \<or> sign = [45]) \<and> ds \<noteq> [] \<and>
                           list_all dig ds"
        by (rule exI [of _ sign], rule exI [of _ ds]) (simp add: d 1)
      with 1 show ?thesis by simp
    next
      case 2
      have "\<exists>sign ds. xs @ [x] = sign @ ds \<and> (sign = [] \<or> sign = [45]) \<and> ds \<noteq> [] \<and>
                           list_all dig ds"
        by (rule exI [of _ sign], rule exI [of _ "ds @ [x]"]) (simp add: d 2)
      with 2 show ?thesis by simp
    qed
  next
    case 4
    with IH obtain sign ds where
      d: "xs = sign @ ds @ [46]" "sign = [] \<or> sign = [45]" "ds \<noteq> []" "list_all dig ds"
      by auto
    from s 4 have p: "dig x" "p = 4" by (auto split: if_splits)
    have "\<exists>sign ds fs. xs @ [x] = sign @ ds @ 46 # fs \<and> (sign = [] \<or> sign = [45]) \<and>
                           ds \<noteq> [] \<and> list_all dig ds \<and> fs \<noteq> [] \<and> list_all dig fs"
      by (rule exI [of _ sign], rule exI [of _ ds], rule exI [of _ "[x]"]) (simp add: d p)
    with p show ?thesis by simp
  next
    case 5
    with IH obtain sign ds fs where
      d: "xs = sign @ ds @ 46 # fs" "sign = [] \<or> sign = [45]" "ds \<noteq> []" "list_all dig ds"
         "fs \<noteq> []" "list_all dig fs"
      by auto
    from s 5 have p: "dig x" "p = 4" by (auto split: if_splits)
    have "\<exists>sign ds fs. xs @ [x] = sign @ ds @ 46 # fs \<and> (sign = [] \<or> sign = [45]) \<and>
                           ds \<noteq> [] \<and> list_all dig ds \<and> fs \<noteq> [] \<and> list_all dig fs"
      by (rule exI [of _ sign], rule exI [of _ ds], rule exI [of _ "fs @ [x]"]) (simp add: d p)
    with p show ?thesis by simp
  qed
qed

lemma get_number_shape:
  assumes "get_number c ts = (Tok t, ts')" and "\<not> IsDigitRune c 46" and "\<not> IsDigitRune c 45"
  obtains sign ds frac where
    "Text t = sign @ ds @ frac" "sign = [] \<or> sign = [45]" "ds \<noteq> []" "list_all (IsDigitRune c) ds"
    "Type t = TokenTypeFloat \<Longrightarrow> \<exists>fs. frac = 46 # fs \<and> fs \<noteq> [] \<and> list_all (IsDigitRune c) fs"
    "Type t \<noteq> TokenTypeFloat \<Longrightarrow> Type t = TokenTypeInt \<and> frac = []"
    "\<And>sz rest. reader ts' = (46, sz) # rest \<Longrightarrow>
       Type t = TokenTypeFloat \<or> \<not> digit_follows c rest"
proof -
  obtain r1 ts1 where l: "get_number_loop c [] 0 False False False ts = (r1, ts1)"
    by (cases "get_number_loop c [] 0 False False False ts")
  from assms(1) l obtain rs n f where r1: "r1 = Inr (rs, n, f)" and ne: "rs \<noteq> []"
    by (cases r1) (auto simp: get_number_def split: if_splits)
  from assms(1) l r1 ne have t: "Text t = rs" "Type t = (if f then TokenTypeFloat else TokenTypeInt)"
    and ts': "reader ts' = reader ts1"
    by (auto simp: get_number_def Let_def)
  have ph0: "number_phase (IsDigitRune c) [] = Some 0" by (simp add: number_phase_def)
  from get_number_loop_phase [OF l [unfolded r1] ph0 _ _ _ _ assms(2,3)] ne
  have ph: "(number_phase (IsDigitRune c) rs = Some 2 \<and> \<not> f) \<or>
            (number_phase (IsDigitRune c) rs = Some 4 \<and> f)"
    and ex: "\<And>sz rest. reader ts1 = (46, sz) # rest \<Longrightarrow> f \<or> \<not> digit_follows c rest"
    by auto
  from ph show thesis
  proof
    assume a: "number_phase (IsDigitRune c) rs = Some 2 \<and> \<not> f"
    with number_phase_shape [of "IsDigitRune c" rs 2] obtain sign ds where
      d: "rs = sign @ ds" "sign = [] \<or> sign = [45]" "ds \<noteq> []" "list_all (IsDigitRune c) ds"
      by auto
    show thesis
    proof (rule that [of sign ds "[]"])
      show "Text t = sign @ ds @ []" using t d by simp
      show "\<And>sz rest. reader ts' = (46, sz) # rest \<Longrightarrow>
              Type t = TokenTypeFloat \<or> \<not> digit_follows c rest"
        using ex ts' t by auto
    qed (use d t a in simp_all)
  next
    assume a: "number_phase (IsDigitRune c) rs = Some 4 \<and> f"
    with number_phase_shape [of "IsDigitRune c" rs 4] obtain sign ds fs where
      d: "rs = sign @ ds @ 46 # fs" "sign = [] \<or> sign = [45]" "ds \<noteq> []"
         "list_all (IsDigitRune c) ds" "fs \<noteq> []" "list_all (IsDigitRune c) fs"
      by auto
    show thesis
    proof (rule that [of sign ds "46 # fs"])
      show "Text t = sign @ ds @ 46 # fs" using t d by simp
      show "\<And>sz rest. reader ts' = (46, sz) # rest \<Longrightarrow>
              Type t = TokenTypeFloat \<or> \<not> digit_follows c rest"
        using t a by simp
    qed (use d t a in simp_all)
  qed
qed

text \<open>The runes and the kinds of the tokens that scanning an input to its end surfaces.\<close>

definition scan_tokens :: "config \<Rightarrow> (rune \<times> nat) list \<Rightarrow> (TokenType \<times> rune list) list" where
  "scan_tokens c r =
     map (\<lambda>t. (Type t, Text t)) (List.map_filter LastToken (fst (Scan_all c (Init r))))"

text \<open>
  Claim C5: a number token is an optional \<open>-\<close>, digits, and then either nothing more (an Int)
  or one \<open>.\<close> and digits (a Float). So a \<open>.\<close> is accepted at most once, only after a
  digit and only before a digit, and the token is a Float exactly when it holds one. The token
  is a prefix of the input: a \<open>.\<close> that is not accepted stays in the input, and when the
  input left after an Int starts with a \<open>.\<close>, no digit follows that \<open>.\<close>. So
  \<open>foo = 42.\<close> ends with the Int \<open>42\<close> and the Symbol \<open>.\<close>.
\<close>

theorem C5_decimal_point:
  assumes "get_number c ts = (Tok t, ts')" and "\<not> IsDigitRune c 46" and "\<not> IsDigitRune c 45"
  shows "(\<exists>pre. reader ts = pre @ reader ts' \<and> Text t = map fst pre) \<and>
         (\<exists>sign ds frac.
            Text t = sign @ ds @ frac \<and> (sign = [] \<or> sign = [45]) \<and>
            ds \<noteq> [] \<and> list_all (IsDigitRune c) ds \<and>
            (if Type t = TokenTypeFloat
             then \<exists>fs. frac = 46 # fs \<and> fs \<noteq> [] \<and> list_all (IsDigitRune c) fs
             else Type t = TokenTypeInt \<and> frac = [])) \<and>
         count_list (Text t) 46 = (if Type t = TokenTypeFloat then 1 else 0) \<and>
         (\<forall>sz rest. reader ts' = (46, sz) # rest \<longrightarrow>
            Type t = TokenTypeFloat \<or> \<not> digit_follows c rest) \<and>
         (\<forall>U. scan_tokens (Init_config U) (ascii_input ''foo = 42.'') =
                 [(TokenTypeIdent, ascii_runes ''foo''), (TokenTypeSymbol, ascii_runes ''=''),
                  (TokenTypeInt, ascii_runes ''42''), (TokenTypeSymbol, ascii_runes ''.'')] \<and>
               scan_tokens (Init_config U) (ascii_input ''pi = 3.14.15'') =
                 [(TokenTypeIdent, ascii_runes ''pi''), (TokenTypeSymbol, ascii_runes ''=''),
                  (TokenTypeFloat, ascii_runes ''3.14''), (TokenTypeSymbol, ascii_runes ''.''),
                  (TokenTypeInt, ascii_runes ''15'')])"
proof -
  have pre: "\<exists>pre. reader ts = pre @ reader ts' \<and> Text t = map fst pre"
    using assms(1)
  proof (rule get_number_cases)
    fix pre
    assume "reader ts = pre @ reader ts'"
      and "\<And>t'. Tok t = Tok t' \<Longrightarrow> pre \<noteq> [] \<and> LastToken ts' = Some t' \<and> last_byte_len ts' = bytes pre \<and>
        Text t' = map fst pre \<and> NumBytes t' = bytes pre \<and> NumChars t' = length pre \<and>
        FirstRune t' = fst (hd pre) \<and> (Type t' = TokenTypeInt \<or> Type t' = TokenTypeFloat)"
    from this(1) this(2) [OF refl] show ?thesis by blast
  qed
  from assms obtain sign ds frac where
    d: "Text t = sign @ ds @ frac" "sign = [] \<or> sign = [45]" "ds \<noteq> []" "list_all (IsDigitRune c) ds"
    "Type t = TokenTypeFloat \<Longrightarrow> \<exists>fs. frac = 46 # fs \<and> fs \<noteq> [] \<and> list_all (IsDigitRune c) fs"
    "Type t \<noteq> TokenTypeFloat \<Longrightarrow> Type t = TokenTypeInt \<and> frac = []"
    and ex: "\<And>sz rest. reader ts' = (46, sz) # rest \<Longrightarrow>
       Type t = TokenTypeFloat \<or> \<not> digit_follows c rest"
    by (rule get_number_shape) blast
  have nd: "count_list xs 46 = 0" if "list_all (IsDigitRune c) xs" for xs
    using that assms(2) by (induction xs) auto
  have ns: "count_list sign 46 = 0" using d(2) by auto
  have shape: "\<exists>sign ds frac.
            Text t = sign @ ds @ frac \<and> (sign = [] \<or> sign = [45]) \<and>
            ds \<noteq> [] \<and> list_all (IsDigitRune c) ds \<and>
            (if Type t = TokenTypeFloat
             then \<exists>fs. frac = 46 # fs \<and> fs \<noteq> [] \<and> list_all (IsDigitRune c) fs
             else Type t = TokenTypeInt \<and> frac = [])"
    using d by (cases "Type t = TokenTypeFloat") auto
  have cnt: "count_list (Text t) 46 = (if Type t = TokenTypeFloat then 1 else 0)"
  proof (cases "Type t = TokenTypeFloat")
    case True
    from d(5) [OF True] obtain fs where "frac = 46 # fs" "list_all (IsDigitRune c) fs" by auto
    with d(1,4) ns nd True show ?thesis by simp
  next
    case False
    from d(6) [OF False] have "frac = []" by simp
    with d(1,4) ns nd False show ?thesis by simp
  qed
  have e1: "scan_tokens (Init_config U) (ascii_input ''foo = 42.'') =
                 [(TokenTypeIdent, ascii_runes ''foo''), (TokenTypeSymbol, ascii_runes ''=''),
                  (TokenTypeInt, ascii_runes ''42''), (TokenTypeSymbol, ascii_runes ''.'')]" for U
    by code_simp
  have e2: "scan_tokens (Init_config U) (ascii_input ''pi = 3.14.15'') =
                 [(TokenTypeIdent, ascii_runes ''pi''), (TokenTypeSymbol, ascii_runes ''=''),
                  (TokenTypeFloat, ascii_runes ''3.14''), (TokenTypeSymbol, ascii_runes ''.''),
                  (TokenTypeInt, ascii_runes ''15'')]" for U
    by code_simp
  from pre shape cnt ex e1 e2 show ?thesis by blast
qed


text \<open>The default digit predicate accepts neither of the two.\<close>

lemma Init_config_digit:
  "\<not> IsDigitRune (Init_config U) 46" "\<not> IsDigitRune (Init_config U) 45"
  by (simp_all add: Init_config_def unicode_IsDigit_def ascii_def)

text \<open>
  Witness for C5: on \<open>3.14.15\<close> under the default configuration \<open>get_number\<close> produces the
  Float \<open>3.14\<close> and leaves \<open>.15\<close>.
\<close>

theorem C5_decimal_point_witness:
  "\<forall>U. let c = Init_config U; ts = Init (ascii_input ''3.14.15'')
        in \<not> IsDigitRune c 46 \<and> \<not> IsDigitRune c 45 \<and>
           (case get_number c ts of
              (Tok t, ts') \<Rightarrow>
                 Text t = ascii_runes ''3.14'' \<and> Type t = TokenTypeFloat \<and>
                 map fst (reader ts') = ascii_runes ''.15'' \<and>
                 count_list (Text t) 46 = (if Type t = TokenTypeFloat then 1 else 0)
            | _ \<Rightarrow> False)"
proof (intro allI)
  fix U
  define c where "c = Init_config U"
  define ts where "ts = Init (ascii_input ''3.14.15'')"
  define t where "t = \<lparr>Text = ascii_runes ''3.14'', NumBytes = 4, NumChars = 4, FirstRune = 51,
                        Type = TokenTypeFloat\<rparr>"
  have r: "get_number c ts = (Tok t, snd (get_number c ts))"
    unfolding c_def ts_def t_def by code_simp
  have rd: "map fst (reader (snd (get_number c ts))) = ascii_runes ''.15''"
    unfolding c_def ts_def by code_simp
  have nd: "\<not> IsDigitRune c 46" "\<not> IsDigitRune c 45"
    unfolding c_def by (rule Init_config_digit)+
  from C5_decimal_point [OF r nd]
  have "count_list (Text t) 46 = (if Type t = TokenTypeFloat then 1 else 0)"
    by blast
  moreover have "Text t = ascii_runes ''3.14''" "Type t = TokenTypeFloat"
    by (simp_all add: t_def)
  ultimately show "let c = Init_config U; ts = Init (ascii_input ''3.14.15'')
        in \<not> IsDigitRune c 46 \<and> \<not> IsDigitRune c 45 \<and>
           (case get_number c ts of
              (Tok t, ts') \<Rightarrow>
                 Text t = ascii_runes ''3.14'' \<and> Type t = TokenTypeFloat \<and>
                 map fst (reader ts') = ascii_runes ''.15'' \<and>
                 count_list (Text t) 46 = (if Type t = TokenTypeFloat then 1 else 0)
            | _ \<Rightarrow> False)"
    unfolding c_def [symmetric] ts_def [symmetric] Let_def
    using nd rd by (subst r) simp
qed

text \<open>
  Claim C6: a \<open>-\<close> in a number token is its first rune and has a digit after it; when the
  input starts with \<open>-\<close> and \<open>get_number\<close> produces a token, the \<open>-\<close> is in it and a
  digit follows; and when no digit follows a \<open>-\<close> at the start of the input, \<open>get_number\<close>
  produces nothing and leaves the input as it is. So \<open>foo = -42\<close> ends with the one Int
  \<open>-42\<close>, and \<open>foo = - 42\<close> with the Symbol \<open>-\<close> and the Int \<open>42\<close>.
\<close>

theorem C6_leading_minus:
  assumes "get_number c ts = (Tok t, ts')" and "\<not> IsDigitRune c 46" and "\<not> IsDigitRune c 45"
  shows "(\<forall>i < length (Text t). Text t ! i = 45 \<longrightarrow>
            i = 0 \<and> 1 < length (Text t) \<and> IsDigitRune c (Text t ! 1)) \<and>
         (\<forall>sz rest. reader ts = (45, sz) # rest \<longrightarrow> FirstRune t = 45 \<and> digit_follows c rest) \<and>
         (reader tsm = (45, szm) # restm \<and> \<not> digit_follows c restm \<longrightarrow>
            fst (get_number c tsm) = NoTok \<and> reader (snd (get_number c tsm)) = reader tsm) \<and>
         (\<forall>U. scan_tokens (Init_config U) (ascii_input ''foo = -42'') =
                 [(TokenTypeIdent, ascii_runes ''foo''), (TokenTypeSymbol, ascii_runes ''=''),
                  (TokenTypeInt, ascii_runes ''-42'')] \<and>
               scan_tokens (Init_config U) (ascii_input ''foo = - 42'') =
                 [(TokenTypeIdent, ascii_runes ''foo''), (TokenTypeSymbol, ascii_runes ''=''),
                  (TokenTypeSymbol, ascii_runes ''-''), (TokenTypeInt, ascii_runes ''42'')])"
proof -
  from assms obtain sign ds frac where
    d: "Text t = sign @ ds @ frac" "sign = [] \<or> sign = [45]" "ds \<noteq> []" "list_all (IsDigitRune c) ds"
    "Type t = TokenTypeFloat \<Longrightarrow> \<exists>fs. frac = 46 # fs \<and> fs \<noteq> [] \<and> list_all (IsDigitRune c) fs"
    "Type t \<noteq> TokenTypeFloat \<Longrightarrow> Type t = TokenTypeInt \<and> frac = []"
    by (rule get_number_shape) blast
  have nd: "45 \<notin> set xs" if "list_all (IsDigitRune c) xs" for xs
    using that assms(3) by (induction xs) auto
  have nf: "45 \<notin> set frac"
  proof (cases "Type t = TokenTypeFloat")
    case True
    from d(5) [OF True] obtain fs where "frac = 46 # fs" "list_all (IsDigitRune c) fs" by auto
    with nd show ?thesis by simp
  next
    case False
    from d(6) [OF False] show ?thesis by simp
  qed
  have tail: "45 \<notin> set (ds @ frac)" using nd [OF d(4)] nf by simp
  have minus: "i = 0 \<and> 1 < length (Text t) \<and> IsDigitRune c (Text t ! 1)"
    if i: "i < length (Text t)" "Text t ! i = 45" for i
  proof -
    from d(2) show ?thesis
    proof
      assume "sign = []"
      with d(1) i have "(ds @ frac) ! i = 45" "i < length (ds @ frac)" by simp_all
      then have "45 \<in> set (ds @ frac)" by (metis nth_mem)
      with tail show ?thesis by simp
    next
      assume sg: "sign = [45]"
      with d(1) have T: "Text t = 45 # (ds @ frac)" by simp
      have "i = 0"
      proof (rule ccontr)
        assume "i \<noteq> 0"
        then obtain j where j: "i = Suc j" by (cases i) auto
        with T i have "(ds @ frac) ! j = 45" "j < length (ds @ frac)" by simp_all
        then have "45 \<in> set (ds @ frac)" by (metis nth_mem)
        with tail show False by simp
      qed
      moreover have "1 < length (Text t)" using T d(3) by (cases ds) simp_all
      moreover have "Text t ! 1 = hd ds" using T d(3) by (cases ds) simp_all
      moreover have "IsDigitRune c (hd ds)" using d(3,4) by (cases ds) simp_all
      ultimately show ?thesis by simp
    qed
  qed
  have lead: "FirstRune t = 45 \<and> digit_follows c rest" if rd: "reader ts = (45, sz) # rest" for sz rest
  proof -
    have f: "FirstRune t = 45"
      using assms(1)
    proof (rule get_number_cases)
      fix pre
      assume p: "reader ts = pre @ reader ts'"
        and "\<And>t'. Tok t = Tok t' \<Longrightarrow> pre \<noteq> [] \<and> LastToken ts' = Some t' \<and> last_byte_len ts' = bytes pre \<and>
          Text t' = map fst pre \<and> NumBytes t' = bytes pre \<and> NumChars t' = length pre \<and>
          FirstRune t' = fst (hd pre) \<and> (Type t' = TokenTypeInt \<or> Type t' = TokenTypeFloat)"
      from this(2) [OF refl] have "pre \<noteq> []" "FirstRune t = fst (hd pre)" by simp_all
      with p rd show ?thesis by (cases pre) simp_all
    qed
    have "digit_follows c rest"
    proof (rule ccontr)
      assume "\<not> digit_follows c rest"
      with get_number_loop_Cons [OF rd, of c "[]" 0 False False False]
      have "get_number c ts = (NoTok, ts\<lparr>reader := (45, sz) # rest, last_rune := None\<rparr>)"
        by (simp add: get_number_def)
      with assms(1) show False by simp
    qed
    with f show ?thesis by simp
  qed
  have left: "fst (get_number c tsm) = NoTok \<and> reader (snd (get_number c tsm)) = reader tsm"
    if "reader tsm = (45, szm) # restm \<and> \<not> digit_follows c restm"
  proof -
    from that have rd: "reader tsm = (45, szm) # restm" and nf: "\<not> digit_follows c restm"
      by simp_all
    from get_number_loop_Cons [OF rd, of c "[]" 0 False False False] nf
    have "get_number c tsm = (NoTok, tsm\<lparr>reader := (45, szm) # restm, last_rune := None\<rparr>)"
      by (simp add: get_number_def)
    with rd show ?thesis by simp
  qed
  have e1: "scan_tokens (Init_config U) (ascii_input ''foo = -42'') =
                 [(TokenTypeIdent, ascii_runes ''foo''), (TokenTypeSymbol, ascii_runes ''=''),
                  (TokenTypeInt, ascii_runes ''-42'')]" for U
    by code_simp
  have e2: "scan_tokens (Init_config U) (ascii_input ''foo = - 42'') =
                 [(TokenTypeIdent, ascii_runes ''foo''), (TokenTypeSymbol, ascii_runes ''=''),
                  (TokenTypeSymbol, ascii_runes ''-''), (TokenTypeInt, ascii_runes ''42'')]" for U
    by code_simp
  from minus lead left e1 e2 show ?thesis by blast
qed

text \<open>
  Witness for C6, under the default configuration: \<open>-42\<close> is read as one Int, and on
  \<open>- 42\<close> \<open>get_number\<close> produces nothing.
\<close>

theorem C6_leading_minus_witness:
  "\<forall>U. let c = Init_config U; ts = Init (ascii_input ''-42 ''); tsm = Init (ascii_input ''- 42'')
        in \<not> IsDigitRune c 46 \<and> \<not> IsDigitRune c 45 \<and>
           reader tsm = (45, 1) # ascii_input '' 42'' \<and> \<not> digit_follows c (ascii_input '' 42'') \<and>
           fst (get_number c tsm) = NoTok \<and> reader (snd (get_number c tsm)) = reader tsm \<and>
           (case get_number c ts of
              (Tok t, ts') \<Rightarrow>
                 Text t = ascii_runes ''-42'' \<and> Type t = TokenTypeInt \<and>
                 (\<forall>i < length (Text t). Text t ! i = 45 \<longrightarrow> i = 0) \<and>
                 FirstRune t = 45 \<and> digit_follows c (ascii_input ''42 '')
            | _ \<Rightarrow> False)"
proof (intro allI)
  fix U
  define c where "c = Init_config U"
  define ts where "ts = Init (ascii_input ''-42 '')"
  define tsm where "tsm = Init (ascii_input ''- 42'')"
  define t where "t = \<lparr>Text = ascii_runes ''-42'', NumBytes = 3, NumChars = 3, FirstRune = 45,
                        Type = TokenTypeInt\<rparr>"
  have r: "get_number c ts = (Tok t, snd (get_number c ts))"
    unfolding c_def ts_def t_def by code_simp
  have rd: "reader ts = (45, 1) # ascii_input ''42 ''"
    unfolding ts_def by code_simp
  have rdm: "reader tsm = (45, 1) # ascii_input '' 42''"
    unfolding tsm_def by code_simp
  have nf: "\<not> digit_follows c (ascii_input '' 42'')"
    unfolding c_def by code_simp
  have nd: "\<not> IsDigitRune c 46" "\<not> IsDigitRune c 45"
    unfolding c_def by (rule Init_config_digit)+
  note inst = C6_leading_minus [OF r nd, where tsm = tsm and szm = 1 and restm = "ascii_input '' 42''"]
  from inst rdm nf
  have m: "fst (get_number c tsm) = NoTok \<and> reader (snd (get_number c tsm)) = reader tsm"
    by blast
  from inst rd have l: "FirstRune t = 45 \<and> digit_follows c (ascii_input ''42 '')"
    by blast
  from inst have i: "\<forall>i < length (Text t). Text t ! i = 45 \<longrightarrow> i = 0"
    by blast
  have "Text t = ascii_runes ''-42''" "Type t = TokenTypeInt"
    by (simp_all add: t_def)
  with m l i nd rdm nf
  show "let c = Init_config U; ts = Init (ascii_input ''-42 ''); tsm = Init (ascii_input ''- 42'')
        in \<not> IsDigitRune c 46 \<and> \<not> IsDigitRune c 45 \<and>
           reader tsm = (45, 1) # ascii_input '' 42'' \<and> \<not> digit_follows c (ascii_input '' 42'') \<and>
           fst (get_number c tsm) = NoTok \<and> reader (snd (get_number c tsm)) = reader tsm \<and>
           (case get_number c ts of
              (Tok t, ts') \<Rightarrow>
                 Text t = ascii_runes ''-42'' \<and> Type t = TokenTypeInt \<and>
                 (\<forall>i < length (Text t). Text t ! i = 45 \<longrightarrow> i = 0) \<and>
                 FirstRune t = 45 \<and> digit_follows c (ascii_input ''42 '')
            | _ \<Rightarrow> False)"
    unfolding c_def [symmetric] ts_def [symmetric] tsm_def [symmetric] Let_def
    by (subst r) simp
qed

subsection \<open>C4 and C3: quoted strings\<close>

text \<open>
  The input between the quotes, cut at its escaped closing runes: each piece is a run \<open>seg\<close>
  without the closing rune, an escape rune \<open>e\<close> and the closing rune. \<open>escaped_body\<close> is
  the input as the reader delivers it, \<open>unescaped_body\<close> its runes without the escape runes.
\<close>

definition escaped_body ::
  "rune \<Rightarrow> ((rune \<times> nat) list \<times> (rune \<times> nat) \<times> nat) list \<Rightarrow> (rune \<times> nat) list" where
  "escaped_body cl segs = concat (map (\<lambda>(seg, e, sc). seg @ [e, (cl, sc)]) segs)"

definition unescaped_body ::
  "rune \<Rightarrow> ((rune \<times> nat) list \<times> (rune \<times> nat) \<times> nat) list \<Rightarrow> rune list" where
  "unescaped_body cl segs = concat (map (\<lambda>(seg, e, sc). map fst seg @ [cl]) segs)"

definition escaped_pieces ::
  "config \<Rightarrow> rune \<Rightarrow> ((rune \<times> nat) list \<times> (rune \<times> nat) \<times> nat) list \<Rightarrow> bool" where
  "escaped_pieces c cl segs =
     list_all (\<lambda>(seg, e, sc). cl \<notin> fst ` set seg \<and> fst e \<noteq> cl \<and> IsEscapeRune c (fst e)) segs"

text \<open>
  \<open>read_until\<close> on an input that holds the rune it looks for, and on one that does not.
\<close>

lemma read_until_loop_finds:
  assumes "reader ts = pre @ (cl, s) # rest" "cl \<notin> fst ` set pre"
  shows "\<exists>ts'. read_until_loop c cl runes ts = (Inr (runes @ map fst pre @ [cl]), ts') \<and>
               reader ts' = rest \<and> pos ts' = pos ts \<and> LastToken ts' = LastToken ts \<and>
               last_byte_len ts' = last_byte_len ts + bytes pre + s"
  using assms
proof (induction pre arbitrary: runes ts)
  case Nil
  then have g: "get_one_rune ts = (Inr (cl, s), ts\<lparr>reader := rest, last_rune := Some (cl, s)\<rparr>)"
    by (simp add: get_one_rune_Cons)
  show ?case
    by (simp add: read_until_loop.simps [of c cl runes ts] g Let_def count_rune_def)
next
  case (Cons u pre)
  obtain ch sz where u: "u = (ch, sz)" by (cases u)
  from Cons.prems u have ne: "ch \<noteq> cl" by auto
  let ?ts1 = "ts\<lparr>reader := pre @ (cl, s) # rest, last_rune := Some (ch, sz)\<rparr>"
  let ?ts2 = "count_rune c ch (?ts1\<lparr>last_byte_len := last_byte_len ?ts1 + sz\<rparr>)"
  have g: "get_one_rune ts = (Inr (ch, sz), ?ts1)"
    using Cons.prems u by (simp add: get_one_rune_Cons)
  have step: "read_until_loop c cl runes ts = read_until_loop c cl (runes @ [ch]) ?ts2"
    using ne by (simp add: read_until_loop.simps [of c cl runes ts] g Let_def)
  have rd: "reader ?ts2 = pre @ (cl, s) # rest" by (simp add: count_rune_def)
  from Cons.prems have "cl \<notin> fst ` set pre" by simp
  from Cons.IH [OF rd this, of "runes @ [ch]"] obtain ts' where
    "read_until_loop c cl (runes @ [ch]) ?ts2 = (Inr ((runes @ [ch]) @ map fst pre @ [cl]), ts')"
    "reader ts' = rest" "pos ts' = pos ?ts2" "LastToken ts' = LastToken ?ts2"
    "last_byte_len ts' = last_byte_len ?ts2 + bytes pre + s"
    by blast
  then show ?case
    unfolding step using u by (simp add: count_rune_def split: if_splits)
qed


text \<open>
  The loop of \<open>get_quoted\<close>: it passes every escaped closing rune, dropping the escape rune,
  and ends at the first closing rune that has no escape rune before it, or with the error at
  the end of the input.
\<close>

lemma get_quoted_loop_escaped_step:
  assumes "reader ts = seg @ e # (cl, sc) # rest" "cl \<notin> fst ` set seg" "fst e \<noteq> cl"
    "IsEscapeRune c (fst e)"
  shows "\<exists>ts1. get_quoted_loop c cl all_runes ts =
                 get_quoted_loop c cl (all_runes @ map fst seg @ [cl]) ts1 \<and>
               reader ts1 = rest \<and> pos ts1 = pos ts \<and> LastToken ts1 = LastToken ts \<and>
               last_byte_len ts1 = last_byte_len ts + bytes (seg @ [e, (cl, sc)])"
proof -
  have rd: "reader ts = (seg @ [e]) @ (cl, sc) # rest" using assms(1) by simp
  have nc: "cl \<notin> fst ` set (seg @ [e])" using assms(2,3) by auto
  from read_until_loop_finds [OF rd nc, of c "[]"] obtain ts1 where
    r: "read_until c cl ts = (Inr (map fst seg @ [fst e, cl]), ts1)"
    and f: "reader ts1 = rest" "pos ts1 = pos ts" "LastToken ts1 = LastToken ts"
      "last_byte_len ts1 = last_byte_len ts + bytes (seg @ [e]) + sc"
    by (auto simp: read_until_def)
  have "get_quoted_loop c cl all_runes ts =
          get_quoted_loop c cl (all_runes @ map fst seg @ [cl]) ts1"
    by (subst get_quoted_loop.simps) (simp only: r prod.case sum.case, simp add: assms(4) nth_append)
  with f show ?thesis by auto
qed

lemma get_quoted_loop_escaped:
  assumes "reader ts = escaped_body cl segs @ rest" "escaped_pieces c cl segs"
  shows "\<exists>ts1. get_quoted_loop c cl all_runes ts =
                 get_quoted_loop c cl (all_runes @ unescaped_body cl segs) ts1 \<and>
               reader ts1 = rest \<and> pos ts1 = pos ts \<and> LastToken ts1 = LastToken ts \<and>
               last_byte_len ts1 = last_byte_len ts + bytes (escaped_body cl segs)"
  using assms
proof (induction segs arbitrary: ts all_runes)
  case Nil
  then have "get_quoted_loop c cl all_runes ts =
               get_quoted_loop c cl (all_runes @ unescaped_body cl []) ts \<and>
             reader ts = rest \<and> pos ts = pos ts \<and> LastToken ts = LastToken ts \<and>
             last_byte_len ts = last_byte_len ts + bytes (escaped_body cl [])"
    by (simp add: escaped_body_def unescaped_body_def)
  then show ?case by (rule exI)
next
  case (Cons p segs)
  obtain seg e sc where p: "p = (seg, e, sc)" by (cases p)
  from Cons.prems p have rd: "reader ts = seg @ e # (cl, sc) # (escaped_body cl segs @ rest)"
    and ok: "cl \<notin> fst ` set seg" "fst e \<noteq> cl" "IsEscapeRune c (fst e)"
    and oks: "escaped_pieces c cl segs"
    by (simp_all add: escaped_body_def escaped_pieces_def)
  from get_quoted_loop_escaped_step [OF rd ok, of all_runes] obtain ts1 where
    s: "get_quoted_loop c cl all_runes ts = get_quoted_loop c cl (all_runes @ map fst seg @ [cl]) ts1"
    and f: "reader ts1 = escaped_body cl segs @ rest" "pos ts1 = pos ts"
      "LastToken ts1 = LastToken ts"
      "last_byte_len ts1 = last_byte_len ts + bytes (seg @ [e, (cl, sc)])"
    by blast
  from Cons.IH [OF f(1) oks, of "all_runes @ map fst seg @ [cl]"] obtain ts2 where
    "get_quoted_loop c cl (all_runes @ map fst seg @ [cl]) ts1 =
       get_quoted_loop c cl ((all_runes @ map fst seg @ [cl]) @ unescaped_body cl segs) ts2"
    "reader ts2 = rest" "pos ts2 = pos ts1" "LastToken ts2 = LastToken ts1"
    "last_byte_len ts2 = last_byte_len ts1 + bytes (escaped_body cl segs)"
    by blast
  with s f p show ?case
    by (auto simp: escaped_body_def unescaped_body_def)
qed

lemma get_quoted_loop_closes:
  assumes "reader ts = final @ (cl, sc) # rest" "cl \<notin> fst ` set final"
    "final = [] \<or> \<not> IsEscapeRune c (fst (last final))"
  shows "\<exists>ts1. get_quoted_loop c cl all_runes ts = (Inr (all_runes @ map fst final @ [cl]), ts1) \<and>
               reader ts1 = rest \<and> pos ts1 = pos ts \<and> LastToken ts1 = LastToken ts \<and>
               last_byte_len ts1 = last_byte_len ts + bytes final + sc"
proof -
  from read_until_loop_finds [OF assms(1,2), of c "[]"] obtain ts1 where
    r: "read_until c cl ts = (Inr (map fst final @ [cl]), ts1)"
    and f: "reader ts1 = rest" "pos ts1 = pos ts" "LastToken ts1 = LastToken ts"
      "last_byte_len ts1 = last_byte_len ts + bytes final + sc"
    by (auto simp: read_until_def)
  have ne: "\<not> (1 < length (map fst final @ [cl]) \<and>
             IsEscapeRune c ((map fst final @ [cl]) ! (length (map fst final @ [cl]) - 1 - 1)))"
  proof (cases final rule: rev_cases)
    case Nil
    then show ?thesis by simp
  next
    case (snoc ys y)
    with assms(3) have "\<not> IsEscapeRune c (fst y)" by simp
    with snoc show ?thesis by (simp add: nth_append)
  qed
  have "get_quoted_loop c cl all_runes ts = (Inr (all_runes @ map fst final @ [cl]), ts1)"
    by (subst get_quoted_loop.simps) (simp only: r prod.case sum.case ne if_False)
  with f show ?thesis by auto
qed


text \<open>
  Claim C4: on an opening quote \<open>q\<close> with closing rune \<open>cl\<close>, a body whose closing runes all
  follow an escape rune, and then a closing rune that follows none, \<open>get_quoted\<close> produces one
  String token. Its text is \<open>q\<close>, the body without the escape runes that precede a closing
  rune, and \<open>cl\<close>; its \<open>NumBytes\<close> counts every byte read, escape runes included; the input
  after the closing rune is left. So \<open>foo = "foo \"some stuff\" bar"\<close> ends with the one
  String token \<open>"foo "some stuff" bar"\<close>.
\<close>

theorem C4_string_text:
  assumes "reader ts = (q, sq) # escaped_body cl segs @ final @ (cl, sc) # rest"
    and "IsQuoteRune c q = (True, cl)"
    and "escaped_pieces c cl segs"
    and "cl \<notin> fst ` set final"
    and "final = [] \<or> \<not> IsEscapeRune c (fst (last final))"
  shows "(\<exists>ts'. get_quoted c ts =
            (Tok \<lparr>Text = q # unescaped_body cl segs @ map fst final @ [cl],
                  NumBytes = last_byte_len ts + sq + bytes (escaped_body cl segs) + bytes final + sc,
                  NumChars = Suc (length (unescaped_body cl segs @ map fst final @ [cl])),
                  FirstRune = q, Type = TokenTypeString\<rparr>, ts') \<and>
            reader ts' = rest) \<and>
         (\<forall>U. scan_tokens (Init_config U)
                 (ascii_input (''foo = '' @ [CHR 0x22] @ ''foo '' @ [CHR 0x5C, CHR 0x22] @
                               ''some stuff'' @ [CHR 0x5C, CHR 0x22] @ '' bar'' @ [CHR 0x22])) =
               [(TokenTypeIdent, ascii_runes ''foo''), (TokenTypeSymbol, ascii_runes ''=''),
                (TokenTypeString,
                 ascii_runes ([CHR 0x22] @ ''foo '' @ [CHR 0x22] @ ''some stuff'' @ [CHR 0x22] @
                              '' bar'' @ [CHR 0x22]))])"
proof (intro conjI allI)
  fix U
  show "scan_tokens (Init_config U)
                 (ascii_input (''foo = '' @ [CHR 0x22] @ ''foo '' @ [CHR 0x5C, CHR 0x22] @
                               ''some stuff'' @ [CHR 0x5C, CHR 0x22] @ '' bar'' @ [CHR 0x22])) =
               [(TokenTypeIdent, ascii_runes ''foo''), (TokenTypeSymbol, ascii_runes ''=''),
                (TokenTypeString,
                 ascii_runes ([CHR 0x22] @ ''foo '' @ [CHR 0x22] @ ''some stuff'' @ [CHR 0x22] @
                              '' bar'' @ [CHR 0x22]))]"
    by code_simp
next
  let ?ts1 = "ts\<lparr>reader := escaped_body cl segs @ final @ (cl, sc) # rest,
                 last_rune := Some (q, sq)\<rparr>"
  let ?ts2 = "?ts1\<lparr>last_byte_len := last_byte_len ?ts1 + sq\<rparr>"
  have g: "get_one_rune ts = (Inr (q, sq), ?ts1)"
    using assms(1) by (rule get_one_rune_Cons)
  have rd: "reader ?ts2 = escaped_body cl segs @ (final @ (cl, sc) # rest)" by simp
  from get_quoted_loop_escaped [OF rd assms(3), of "[]"] obtain ts3 where
    e: "get_quoted_loop c cl [] ?ts2 = get_quoted_loop c cl ([] @ unescaped_body cl segs) ts3"
    and f3: "reader ts3 = final @ (cl, sc) # rest"
      "last_byte_len ts3 = last_byte_len ?ts2 + bytes (escaped_body cl segs)"
    by blast
  from get_quoted_loop_closes [OF f3(1) assms(4,5), of "[] @ unescaped_body cl segs"] obtain ts4 where
    l: "get_quoted_loop c cl ([] @ unescaped_body cl segs) ts3 =
          (Inr (([] @ unescaped_body cl segs) @ map fst final @ [cl]), ts4)"
    and f4: "reader ts4 = rest" "last_byte_len ts4 = last_byte_len ts3 + bytes final + sc"
    by blast
  have loop: "get_quoted_loop c cl [] ?ts2 = (Inr (unescaped_body cl segs @ map fst final @ [cl]), ts4)"
    using e l by simp
  have "get_quoted c ts =
          (Tok \<lparr>Text = q # unescaped_body cl segs @ map fst final @ [cl],
                NumBytes = last_byte_len ts4,
                NumChars = length (unescaped_body cl segs @ map fst final @ [cl]) + 1,
                FirstRune = q, Type = TokenTypeString\<rparr>,
           ts4\<lparr>LastToken := Some \<lparr>Text = q # unescaped_body cl segs @ map fst final @ [cl],
                NumBytes = last_byte_len ts4,
                NumChars = length (unescaped_body cl segs @ map fst final @ [cl]) + 1,
                FirstRune = q, Type = TokenTypeString\<rparr>\<rparr>)"
    unfolding get_quoted_def
    by (simp only: g prod.case sum.case assms(2) bool.case loop Let_def)
  with f3 f4 show "\<exists>ts'. get_quoted c ts =
            (Tok \<lparr>Text = q # unescaped_body cl segs @ map fst final @ [cl],
                  NumBytes = last_byte_len ts + sq + bytes (escaped_body cl segs) + bytes final + sc,
                  NumChars = Suc (length (unescaped_body cl segs @ map fst final @ [cl])),
                  FirstRune = q, Type = TokenTypeString\<rparr>, ts') \<and>
            reader ts' = rest"
    by simp
qed


text \<open>Witness for C4: the string \<open>"a\"b"\<close> followed by \<open> c\<close>, under the default configuration.\<close>

theorem C4_string_text_witness:
  "\<forall>U. let c = Init_config U;
            segs = [([(97, 1)], (92, 1), 1)];
            final = [(98, 1)];
            ts = Init (ascii_input ([CHR 0x22] @ ''a'' @ [CHR 0x5C, CHR 0x22] @ ''b'' @ [CHR 0x22] @ '' c''))
        in reader ts = (34, 1) # escaped_body 34 segs @ final @ (34, 1) # ascii_input '' c'' \<and>
           IsQuoteRune c 34 = (True, 34) \<and> escaped_pieces c 34 segs \<and>
           34 \<notin> fst ` set final \<and> \<not> IsEscapeRune c (fst (last final)) \<and>
           (\<exists>ts'. get_quoted c ts =
              (Tok \<lparr>Text = ascii_runes ([CHR 0x22] @ ''a'' @ [CHR 0x22] @ ''b'' @ [CHR 0x22]),
                    NumBytes = 6, NumChars = 5, FirstRune = 34, Type = TokenTypeString\<rparr>, ts') \<and>
              reader ts' = ascii_input '' c'')"
proof (intro allI)
  fix U
  define c where "c = Init_config U"
  define segs :: "((rune \<times> nat) list \<times> (rune \<times> nat) \<times> nat) list"
    where "segs = [([(97, 1)], (92, 1), 1)]"
  define final :: "(rune \<times> nat) list" where "final = [(98, 1)]"
  define ts where
    "ts = Init (ascii_input ([CHR 0x22] @ ''a'' @ [CHR 0x5C, CHR 0x22] @ ''b'' @ [CHR 0x22] @ '' c''))"
  have h1: "reader ts = (34, 1) # escaped_body 34 segs @ final @ (34, 1) # ascii_input '' c''"
    unfolding ts_def segs_def final_def by code_simp
  have h2: "IsQuoteRune c 34 = (True, 34)"
    unfolding c_def by code_simp
  have h3: "escaped_pieces c 34 segs"
    unfolding c_def segs_def by code_simp
  have h4: "34 \<notin> fst ` set final" by (simp add: final_def)
  have h5': "\<not> IsEscapeRune c (fst (last final))"
    unfolding c_def final_def by code_simp
  then have h5: "final = [] \<or> \<not> IsEscapeRune c (fst (last final))" by simp
  have v: "34 # unescaped_body 34 segs @ map fst final @ [34] =
             ascii_runes ([CHR 0x22] @ ''a'' @ [CHR 0x22] @ ''b'' @ [CHR 0x22])"
    unfolding segs_def final_def by code_simp
  have n: "last_byte_len ts + 1 + bytes (escaped_body 34 segs) + bytes final + 1 = 6"
    "Suc (length (unescaped_body 34 segs @ map fst final @ [34])) = 5"
    unfolding ts_def segs_def final_def by code_simp+
  from C4_string_text [OF h1 h2 h3 h4 h5]
  have "\<exists>ts'. get_quoted c ts =
              (Tok \<lparr>Text = ascii_runes ([CHR 0x22] @ ''a'' @ [CHR 0x22] @ ''b'' @ [CHR 0x22]),
                    NumBytes = 6, NumChars = 5, FirstRune = 34, Type = TokenTypeString\<rparr>, ts') \<and>
              reader ts' = ascii_input '' c''"
    unfolding v n by blast
  with h1 h2 h3 h4 h5'
  show "let c = Init_config U;
            segs = [([(97, 1)], (92, 1), 1)];
            final = [(98, 1)];
            ts = Init (ascii_input ([CHR 0x22] @ ''a'' @ [CHR 0x5C, CHR 0x22] @ ''b'' @ [CHR 0x22] @ '' c''))
        in reader ts = (34, 1) # escaped_body 34 segs @ final @ (34, 1) # ascii_input '' c'' \<and>
           IsQuoteRune c 34 = (True, 34) \<and> escaped_pieces c 34 segs \<and>
           34 \<notin> fst ` set final \<and> \<not> IsEscapeRune c (fst (last final)) \<and>
           (\<exists>ts'. get_quoted c ts =
              (Tok \<lparr>Text = ascii_runes ([CHR 0x22] @ ''a'' @ [CHR 0x22] @ ''b'' @ [CHR 0x22]),
                    NumBytes = 6, NumChars = 5, FirstRune = 34, Type = TokenTypeString\<rparr>, ts') \<and>
              reader ts' = ascii_input '' c'')"
    unfolding c_def [symmetric] segs_def [symmetric] final_def [symmetric] ts_def [symmetric] Let_def
    by blast
qed








subsection \<open>C2: the position after a scan step\<close>


text \<open>The position as the tests compare it: offset, line, column.\<close>

definition position_triple :: "TokenScanner \<Rightarrow> nat \<times> nat \<times> nat" where
  "position_triple ts = (Offset (pos ts), Line (pos ts), Column (pos ts))"








subsection \<open>C9: pushing a token back\<close>

text \<open>
  \<open>UnreadToken\<close> is called by the tests (\<open>TestUnreadToken\<close>) but the scanner of
  textparser.go has neither the function nor a place for the token pushed back. Both are
  taken from the description in the spec (4.10) and put around \<open>Scan\<close>.
\<close>

text \<open>
  Modelled from the spec: the scanner with its one-token pushback slot, which is missing in
  textparser.go. The slot holds at most one pair of a token and a position, "pending
  redelivery".
\<close>

record Scanner =
  inner :: TokenScanner
  pending :: "(Token \<times> Position) option"

text \<open>
  Modelled from the spec: a scanner after initialisation, with nothing pending (the
  constructor \<open>NewScanner\<close> of the tests is missing).
\<close>

definition NewScanner :: "(rune \<times> nat) list \<Rightarrow> Scanner" where
  "NewScanner r = \<lparr>inner = Init r, pending = None\<rparr>"

text \<open>The accessors \<open>Token\<close> and \<open>Position\<close> of textparser.go on that scanner.\<close>

definition Token_of :: "Scanner \<Rightarrow> Token option" where
  "Token_of s = LastToken (inner s)"

definition Position_of :: "Scanner \<Rightarrow> Position" where
  "Position_of s = pos (inner s)"

text \<open>
  Modelled from the spec: \<open>UnreadToken\<close>, which is missing. It marks the token of the
  preceding scan step, with its position, as pending redelivery. The spec leaves open what a
  call without a preceding token does: here nothing.
\<close>

definition UnreadToken :: "Scanner \<Rightarrow> Scanner" where
  "UnreadToken s =
     (case LastToken (inner s) of
        None \<Rightarrow> s
      | Some t \<Rightarrow> s\<lparr>pending := Some (t, pos (inner s))\<rparr>)"

text \<open>
  Modelled from the spec: the scan step of a scanner with a pushback slot, which is missing.
  When a pair is pending the step runs no classifier: it redelivers the pair, as the token
  and the position of the scanner, and clears the slot. Otherwise it is the scan step \<open>scan\<close>
  without pushback: \<open>Scan c\<close> of textparser.go, or \<open>Scan_indexed\<close>.
\<close>

definition Scan_pushback ::
  "(TokenScanner \<Rightarrow> bool \<times> TokenScanner) \<Rightarrow> Scanner \<Rightarrow> bool \<times> Scanner" where
  "Scan_pushback scan s =
     (case pending s of
        Some (t, p) \<Rightarrow>
          (True, s\<lparr>inner := (inner s)\<lparr>LastToken := Some t, pos := p\<rparr>, pending := None\<rparr>)
      | None \<Rightarrow>
          (case scan (inner s) of (ok, ts1) \<Rightarrow> (ok, s\<lparr>inner := ts1\<rparr>)))"

text \<open>
  The loop of \<open>TestUnreadToken\<close>: up to \<open>n\<close> scan steps, with a call of \<open>UnreadToken\<close>
  after the step of index \<open>k\<close>; it returns the scanner as it stands after each successful
  step.
\<close>

fun scan_unread_at ::
  "(TokenScanner \<Rightarrow> bool \<times> TokenScanner) \<Rightarrow> nat \<Rightarrow> nat \<Rightarrow> nat \<Rightarrow> Scanner \<Rightarrow> Scanner list" where
  "scan_unread_at scan k i 0 s = []"
| "scan_unread_at scan k i (Suc n) s =
     (case Scan_pushback scan s of
        (True, s1) \<Rightarrow> s1 # scan_unread_at scan k (Suc i) n (if i = k then UnreadToken s1 else s1)
      | (False, s1) \<Rightarrow> [])"

lemma Scan_leaves_token:
  assumes "Scan c ts = (True, ts')"
  shows "\<exists>t. LastToken ts' = Some t"
proof -
  obtain ok e sk ts1 where l: "Scan_loop c [] ts = ((ok, e, sk), ts1)"
    by (cases "Scan_loop c [] ts") auto
  with assms have ok: "ok" and ts': "ts' = ts1\<lparr>last_err := e\<rparr>"
    by (simp_all add: Scan_def)
  from l show ?thesis
  proof (rule Scan_loop_cases)
    fix pre
    assume "ok \<Longrightarrow> e = None \<and> pre \<noteq> [] \<and>
       (\<exists>t. LastToken ts1 = Some t \<and> \<not> skips c t \<and> Text t \<noteq> [] \<and>
            NumChars t = length (Text t) \<and> FirstRune t = hd (Text t))"
    with ok ts' show ?thesis by auto
  qed
qed

lemma Scan_pushback_success:
  assumes "Scan_pushback (Scan c) s = (True, s1)"
  shows "pending s1 = None \<and> (\<exists>t. LastToken (inner s1) = Some t)"
proof (cases "pending s")
  case None
  with assms obtain ts1 where "Scan c (inner s) = (True, ts1)" "s1 = s\<lparr>inner := ts1\<rparr>"
    by (auto simp: Scan_pushback_def split: prod.splits)
  with None Scan_leaves_token [of c "inner s" ts1] show ?thesis by simp
next
  case (Some a)
  obtain t p where "a = (t, p)" by (cases a)
  with Some assms show ?thesis by (auto simp: Scan_pushback_def)
qed

text \<open>
  Claim C9: after a successful scan step, \<open>UnreadToken\<close> makes the next scan step return
  true and leave the scanner exactly as the preceding step left it: the same token (text,
  counts, type and first rune), the same position, no input consumed; and scanning goes on
  from there as it would have without the pushback. On \<open>foo += 5\<close> with the second token
  pushed back, the default symbol predicate of classes.go gives \<open>foo\<close>, \<open>+\<close>, \<open>+\<close> again
  at the same position, \<open>=\<close> and \<open>5\<close>, the tokens and the positions that
  \<open>TestUnreadToken\<close> expects; the symbol predicate of textparser.go, which makes \<open>+=\<close> one
  token, gives \<open>foo\<close>, \<open>+=\<close>, \<open>+=\<close> again at the same position, and \<open>5\<close>.
\<close>

theorem C9_unread_token_redelivers:
  assumes "Scan_pushback (Scan c) s = (True, s1)"
  shows "Scan_pushback (Scan c) (UnreadToken s1) = (True, s1) \<and>
         Token_of (snd (Scan_pushback (Scan c) (UnreadToken s1))) = Token_of s1 \<and>
         Token_of s1 \<noteq> None \<and>
         Position_of (snd (Scan_pushback (Scan c) (UnreadToken s1))) = Position_of s1 \<and>
         reader (inner (UnreadToken s1)) = reader (inner s1) \<and>
         Scan_pushback (Scan c) (snd (Scan_pushback (Scan c) (UnreadToken s1))) =
           Scan_pushback (Scan c) s1 \<and>
         (\<forall>U. map (\<lambda>s. (map_option Text (Token_of s), position_triple (inner s)))
                 (scan_unread_at (Scan_indexed (Init_config U) (IsSymbolRune_indexed U)) 1 0 8
                    (NewScanner (ascii_input ''foo += 5''))) =
               [(Some (ascii_runes ''foo''), (0, 1, 1)), (Some (ascii_runes ''+''), (4, 1, 5)),
                (Some (ascii_runes ''+''), (4, 1, 5)), (Some (ascii_runes ''=''), (5, 1, 6)),
                (Some (ascii_runes ''5''), (7, 1, 8))] \<and>
               map (\<lambda>s. (map_option Text (Token_of s), position_triple (inner s)))
                 (scan_unread_at (Scan (Init_config U)) 1 0 8
                    (NewScanner (ascii_input ''foo += 5''))) =
               [(Some (ascii_runes ''foo''), (0, 1, 1)), (Some (ascii_runes ''+=''), (4, 1, 5)),
                (Some (ascii_runes ''+=''), (4, 1, 5)), (Some (ascii_runes ''5''), (7, 1, 8))])"
proof -
  from Scan_pushback_success [OF assms] obtain t where
    p: "pending s1 = None" and t: "LastToken (inner s1) = Some t"
    by blast
  have u: "UnreadToken s1 = s1\<lparr>pending := Some (t, pos (inner s1))\<rparr>"
    using t by (simp add: UnreadToken_def)
  have i: "(inner s1)\<lparr>LastToken := Some t, pos := pos (inner s1)\<rparr> = inner s1"
    using t by (cases "inner s1") simp
  have r: "Scan_pushback (Scan c) (UnreadToken s1) = (True, s1)"
    unfolding u using p by (simp add: Scan_pushback_def i)
  have e1: "map (\<lambda>s. (map_option Text (Token_of s), position_triple (inner s)))
                 (scan_unread_at (Scan_indexed (Init_config U) (IsSymbolRune_indexed U)) 1 0 8
                    (NewScanner (ascii_input ''foo += 5''))) =
               [(Some (ascii_runes ''foo''), (0, 1, 1)), (Some (ascii_runes ''+''), (4, 1, 5)),
                (Some (ascii_runes ''+''), (4, 1, 5)), (Some (ascii_runes ''=''), (5, 1, 6)),
                (Some (ascii_runes ''5''), (7, 1, 8))]" for U
    by code_simp
  have e2: "map (\<lambda>s. (map_option Text (Token_of s), position_triple (inner s)))
                 (scan_unread_at (Scan (Init_config U)) 1 0 8
                    (NewScanner (ascii_input ''foo += 5''))) =
               [(Some (ascii_runes ''foo''), (0, 1, 1)), (Some (ascii_runes ''+=''), (4, 1, 5)),
                (Some (ascii_runes ''+=''), (4, 1, 5)), (Some (ascii_runes ''5''), (7, 1, 8))]" for U
    by code_simp
  from r t e1 e2 u show ?thesis by (simp add: Token_of_def)
qed

text \<open>Witness for C9: the second scan step of \<open>foo += 5\<close>.\<close>

theorem C9_unread_token_redelivers_witness:
  "\<forall>U. let c = Init_config U;
            s = snd (Scan_pushback (Scan c) (NewScanner (ascii_input ''foo += 5'')));
            s1 = snd (Scan_pushback (Scan c) s)
        in Scan_pushback (Scan c) s = (True, s1) \<and>
           map_option Text (Token_of s1) = Some (ascii_runes ''+='') \<and>
           position_triple (inner s1) = (4, 1, 5) \<and>
           Scan_pushback (Scan c) (UnreadToken s1) = (True, s1) \<and>
           Scan_pushback (Scan c) (snd (Scan_pushback (Scan c) (UnreadToken s1))) =
             Scan_pushback (Scan c) s1"
proof (intro allI)
  fix U
  define c where "c = Init_config U"
  define s where "s = snd (Scan_pushback (Scan c) (NewScanner (ascii_input ''foo += 5'')))"
  define s1 where "s1 = snd (Scan_pushback (Scan c) s)"
  have "fst (Scan_pushback (Scan c) s) = True"
    unfolding s_def c_def by code_simp
  then have h: "Scan_pushback (Scan c) s = (True, s1)"
    unfolding s1_def by (cases "Scan_pushback (Scan c) s") simp
  have v: "map_option Text (Token_of s1) = Some (ascii_runes ''+='')"
    "position_triple (inner s1) = (4, 1, 5)"
    unfolding s1_def s_def c_def by code_simp+
  from C9_unread_token_redelivers [OF h]
  have "Scan_pushback (Scan c) (UnreadToken s1) = (True, s1) \<and>
        Scan_pushback (Scan c) (snd (Scan_pushback (Scan c) (UnreadToken s1))) =
          Scan_pushback (Scan c) s1"
    by blast
  with h v
  show "let c = Init_config U;
            s = snd (Scan_pushback (Scan c) (NewScanner (ascii_input ''foo += 5'')));
            s1 = snd (Scan_pushback (Scan c) s)
        in Scan_pushback (Scan c) s = (True, s1) \<and>
           map_option Text (Token_of s1) = Some (ascii_runes ''+='') \<and>
           position_triple (inner s1) = (4, 1, 5) \<and>
           Scan_pushback (Scan c) (UnreadToken s1) = (True, s1) \<and>
           Scan_pushback (Scan c) (snd (Scan_pushback (Scan c) (UnreadToken s1))) =
             Scan_pushback (Scan c) s1"
    unfolding c_def [symmetric] s_def [symmetric] s1_def [symmetric] Let_def
    by blast
qed

end
